theory Spec2Isabelle
  imports Complex_Main "HOL-Library.Word"
begin

unbundle bit_operations_syntax

section \<open>JavaScript numbers, typed arrays and exceptions\<close>

text \<open>
  The program is TypeScript. Its \<open>number\<close> values are modelled as exact reals: every
  quantity below is an integer or an integer divided by a power of two, well under
  \<open>2 ^ 53\<close>, where IEEE doubles are exact. \<open>/\<close> is therefore real division (it does
  not truncate). The bitwise operators convert their operands to 32-bit two's complement
  (\<open>ToInt32\<close>) and return a signed 32-bit value. \<open>NaN\<close> and infinities are outside the
  model: \<open>js_mod a 0\<close> is not what JavaScript computes, so statements about \<open>%\<close> assume a
  positive divisor.
\<close>

type_synonym number = real
type_synonym byte = "8 word"

definition trunc :: "number \<Rightarrow> int" where
  "trunc x = (if 0 \<le> x then \<lfloor>x\<rfloor> else \<lceil>x\<rceil>)"

definition ToInt32 :: "number \<Rightarrow> 32 word" where
  "ToInt32 x = word_of_int (trunc x)"

definition ToUint8 :: "number \<Rightarrow> byte" where
  "ToUint8 x = word_of_int (trunc x)"

definition fromInt32 :: "32 word \<Rightarrow> number" where
  "fromInt32 w = of_int (sint w)"

definition js_and :: "number \<Rightarrow> number \<Rightarrow> number" where
  "js_and a b = fromInt32 (ToInt32 a AND ToInt32 b)"

definition js_or :: "number \<Rightarrow> number \<Rightarrow> number" where
  "js_or a b = fromInt32 (ToInt32 a OR ToInt32 b)"

definition js_not :: "number \<Rightarrow> number" where
  "js_not a = fromInt32 (NOT (ToInt32 a))"

definition js_shl :: "number \<Rightarrow> number \<Rightarrow> number" where
  "js_shl a b = fromInt32 (push_bit (unat (ToInt32 b AND 31)) (ToInt32 a))"

definition js_shr :: "number \<Rightarrow> number \<Rightarrow> number" where
  "js_shr a b = fromInt32 (signed_drop_bit (unat (ToInt32 b AND 31)) (ToInt32 a))"

definition js_mod :: "number \<Rightarrow> number \<Rightarrow> number" where
  "js_mod a b = a - b * of_int (trunc (a / b))"

definition truthy :: "number \<Rightarrow> bool" where
  "truthy x = (x \<noteq> 0)"

text \<open>
  A \<open>Uint8Array\<close> is a list of bytes indexed by numbers. A read at an index that is not
  an integer inside the array gives \<open>undefined\<close>; every such read in the program feeds a
  bitwise operator or a typed-array store, both of which turn \<open>undefined\<close> into 0, so
  \<open>u8_get\<close> returns 0 there. A store at such an index is ignored.
\<close>

definition is_index :: "'a list \<Rightarrow> number \<Rightarrow> bool" where
  "is_index a i = (of_int \<lfloor>i\<rfloor> = i \<and> 0 \<le> i \<and> i < of_nat (length a))"

definition u8_get :: "byte list \<Rightarrow> number \<Rightarrow> number" where
  "u8_get a i = (if is_index a i then of_nat (unat (a ! nat \<lfloor>i\<rfloor>)) else 0)"

definition u8_set :: "byte list \<Rightarrow> number \<Rightarrow> number \<Rightarrow> byte list" where
  "u8_set a i v = (if is_index a i then a[nat \<lfloor>i\<rfloor> := ToUint8 v] else a)"

text \<open>The value of an assignment expression is the assigned value.\<close>

definition u8_assign :: "byte list \<Rightarrow> number \<Rightarrow> number \<Rightarrow> number \<times> byte list" where
  "u8_assign a i v = (v, u8_set a i v)"

definition subarray :: "nat \<Rightarrow> nat \<Rightarrow> 'a list \<Rightarrow> 'a list" where
  "subarray b e a = take (e - b) (drop b a)"

text \<open>
  \<open>TextDecoder("ascii")\<close>: one character per byte. (For bytes \<open>0x80\<close> to \<open>0x9F\<close> the
  browser yields other code points; no ASCII character is affected.)
\<close>

definition ascii_decode :: "byte list \<Rightarrow> string" where
  "ascii_decode bs = map (\<lambda>b. char_of (unat b)) bs"

datatype error =
    SamBAError
  | FlashConfigError
  | FlashRegionError
  | FlashEraseError
  | FlashCmdError
  | FlashPageError
  | InvalidBufferSize
  | TypeError

text \<open>
  An \<open>async\<close> method is a function from the state before to a result and the state
  after; a thrown exception is \<open>Inl\<close>.
\<close>

type_synonym ('s, 'a) action = "'s \<Rightarrow> (error + 'a) \<times> 's"

definition ret :: "'a \<Rightarrow> ('s, 'a) action" where
  "ret x = (\<lambda>s. (Inr x, s))"

definition throw :: "error \<Rightarrow> ('s, 'a) action" where
  "throw e = (\<lambda>s. (Inl e, s))"

definition andThen :: "('s, 'a) action \<Rightarrow> ('a \<Rightarrow> ('s, 'b) action) \<Rightarrow> ('s, 'b) action" where
  "andThen m k = (\<lambda>s. case m s of (Inl e, s') \<Rightarrow> (Inl e, s') | (Inr x, s') \<Rightarrow> k x s')"

definition next_do :: "('s, unit) action \<Rightarrow> ('s, 'b) action \<Rightarrow> ('s, 'b) action" where
  "next_do m k = andThen m (\<lambda>_. k)"

section \<open>The SAM-BA client (samba.ts)\<close>

text \<open>
  Commands are kept structured (the letter and its numeric fields) instead of the ASCII
  text that \<open>hex\<close> formats. The log \<open>wire\<close> records every packet written to the port,
  with its binary payload, and every result of \<open>readBuffer\<close>; drivers add one more kind
  of entry, \<open>BufferSwitch\<close>, when they flip \<open>_onBufferA\<close>.

  \<open>sendCommand\<close> builds every packet in one shared buffer, and \<open>writeToStream\<close> takes the
  lock of the port's writable stream, sleeps 50 ms, writes and releases the lock. A caller
  that awaits \<open>sendCommand\<close> sees all of this happen. \<open>writeByte\<close> does not await it, so
  its write is still to come when the caller goes on: \<open>inflight = Some c\<close> says that such
  a write holds the lock and that the shared buffer holds the packet of \<open>c\<close>. While that is
  so, \<open>getWriter\<close> throws \<open>TypeError\<close> for every further \<open>sendCommand\<close>, after its packet
  has replaced the one in the buffer. When the 50 ms are over the delayed write sends what
  the buffer then holds (\<open>Late\<close> in the log, through \<open>idle\<close>); the chain of calls that
  follows a \<open>writeByte\<close> without pause takes place before that.

  The target is scripted: \<open>incoming\<close> holds, for each call of \<open>readBuffer\<close> in turn,
  the bytes that reach the input buffer before that call's timeout. When the script is
  used up nothing arrives any more and \<open>readBuffer\<close> times out. Sleeps and timeouts are
  not modelled otherwise.
\<close>

datatype command =
    CmdN
  | CmdV
  | CmdO number number
  | Cmdo number
  | CmdW number number
  | Cmdw number
  | CmdS number number
  | CmdR number number
  | CmdG number
  | CmdX number
  | CmdY number number

datatype event =
    Sent command "byte list option"
  | Recv "byte list option"
  | BufferSwitch
  | Late command

record samba =
  canChipErase :: bool
  canWriteBuffer :: bool
  canChecksumBuffer :: bool
  canProtect :: bool
  readBufferSize :: number
  wire :: "event list"
  incoming :: "byte list list"
  inflight :: "command option"

definition SamBA_new :: "byte list list \<Rightarrow> samba" where
  "SamBA_new script =
     \<lparr> canChipErase = False, canWriteBuffer = False, canChecksumBuffer = False,
       canProtect = False, readBufferSize = 0, wire = [], incoming = script,
       inflight = None \<rparr>"

text \<open>
  The loop of \<open>readBuffer\<close> over the bytes that arrive: it stops after a zero byte once
  two bytes are in, or when \<open>responseSize\<close> bytes are in.
\<close>

fun readBuffer_loop :: "number option \<Rightarrow> byte list \<Rightarrow> byte list \<Rightarrow> byte list" where
  "readBuffer_loop responseSize reply [] = reply"
| "readBuffer_loop responseSize reply (c # cs) =
     (let reply' = reply @ [c] in
      if length reply' > 1 \<and> last reply' = 0 then reply'
      else if (case responseSize of None \<Rightarrow> False
               | Some n \<Rightarrow> truthy n \<and> of_nat (length reply') = n) then reply'
      else readBuffer_loop responseSize reply' cs)"

definition readBuffer ::
  "number option \<Rightarrow> 'a samba_scheme \<Rightarrow> byte list option \<times> 'a samba_scheme" where
  "readBuffer responseSize s =
     (let (arrived, rest) = (case incoming s of [] \<Rightarrow> ([], []) | bs # r \<Rightarrow> (bs, r));
          reply = readBuffer_loop responseSize [] arrived;
          result = (if length reply = 0 then None else Some reply)
      in (result, s\<lparr> incoming := rest, wire := wire s @ [Recv result] \<rparr>))"

text \<open>
  \<open>sendCommand\<close>, awaited. With a write in flight the packet is built, replacing the one
  in the shared buffer, and \<open>getWriter\<close> throws; nothing is written or read.
\<close>

definition sendCommand ::
  "command \<Rightarrow> number \<Rightarrow> byte list option \<Rightarrow> number
     \<Rightarrow> ('a samba_scheme, byte list option) action" where
  "sendCommand cmd responseSize data size' s =
     (case inflight s of
        Some c \<Rightarrow> (Inl TypeError, s\<lparr> inflight := Some cmd \<rparr>)
      | None \<Rightarrow>
          (let s1 = s\<lparr> wire := wire s @ [Sent cmd data] \<rparr> in
           if responseSize > 0
           then (case readBuffer (Some responseSize) s1 of (r, s2) \<Rightarrow> (Inr r, s2))
           else (Inr None, s1)))"

text \<open>
  \<open>writeByte\<close> is not \<open>async\<close> and calls \<open>sendCommand\<close> without awaiting it. The packet
  is built in the shared buffer at once. If no write is in flight, \<open>writeToStream\<close> takes
  the lock and goes to sleep; if one is, \<open>getWriter\<close> throws inside the promise nobody
  awaits, and the exception is lost. Either way \<open>writeByte\<close> returns normally, nothing
  has been written yet, a write is in flight and the buffer holds this packet.
\<close>

definition writeByte :: "number \<Rightarrow> number \<Rightarrow> ('a samba_scheme, unit) action" where
  "writeByte addr v s = (Inr (), s\<lparr> inflight := Some (CmdO addr v) \<rparr>)"

text \<open>
  No call for 50 ms: the delayed write, if there is one, sends the first bytes of the
  shared buffer, as many as the packet had that started it, and releases the lock.
\<close>

definition idle :: "'a samba_scheme \<Rightarrow> 'a samba_scheme" where
  "idle s =
     (case inflight s of
        None \<Rightarrow> s
      | Some c \<Rightarrow> s\<lparr> wire := wire s @ [Late c], inflight := None \<rparr>)"

definition readByte :: "number \<Rightarrow> ('a samba_scheme, number) action" where
  "readByte addr s =
     (case sendCommand (Cmdo addr) 1 None 0 s of
        (Inl e, s') \<Rightarrow> (Inl e, s')
      | (Inr result, s') \<Rightarrow>
          (case result of Some r \<Rightarrow> (Inr (u8_get r 0), s') | None \<Rightarrow> (Inl SamBAError, s')))"

definition writeWord :: "number \<Rightarrow> number \<Rightarrow> ('a samba_scheme, unit) action" where
  "writeWord addr v s =
     (case sendCommand (CmdW addr v) 0 None 0 s of
        (Inl e, s') \<Rightarrow> (Inl e, s')
      | (Inr r, s') \<Rightarrow> (Inr (), s'))"

text \<open>The little-endian value \<open>readWord\<close> builds from a reply, which may be short.\<close>

definition word_le :: "byte list \<Rightarrow> number" where
  "word_le r =
     js_or (js_or (js_or (js_shl (u8_get r 3) 24) (js_shl (u8_get r 2) 16))
                  (js_shl (u8_get r 1) 8)) (js_shl (u8_get r 0) 0)"

definition readWord :: "number \<Rightarrow> ('a samba_scheme, number) action" where
  "readWord addr s =
     (case sendCommand (Cmdw addr) 4 None 0 s of
        (Inl e, s') \<Rightarrow> (Inl e, s')
      | (Inr result, s') \<Rightarrow>
          (case result of
             Some r \<Rightarrow> (Inr (word_le r), s')
           | None \<Rightarrow> (Inl SamBAError, s')))"

definition samba_write :: "number \<Rightarrow> byte list \<Rightarrow> number \<Rightarrow> ('a samba_scheme, unit) action" where
  "samba_write addr buffer size' s =
     (case sendCommand (CmdS addr size') 0 (Some buffer) size' s of
        (Inl e, s') \<Rightarrow> (Inl e, s')
      | (Inr r, s') \<Rightarrow> (Inr (), s'))"

definition go :: "number \<Rightarrow> ('a samba_scheme, unit) action" where
  "go addr s =
     (case sendCommand (CmdG addr) 0 None 0 s of
        (Inl e, s') \<Rightarrow> (Inl e, s')
      | (Inr r, s') \<Rightarrow> (Inr (), s'))"

definition chipErase :: "number \<Rightarrow> ('a samba_scheme, unit) action" where
  "chipErase start_addr s =
     (if \<not> canChipErase s then (Inl SamBAError, s)
      else
        (case sendCommand (CmdX start_addr) 3 None 0 s of
           (Inl e, s') \<Rightarrow> (Inl e, s')
         | (Inr None, s') \<Rightarrow> (Inl SamBAError, s')
         | (Inr (Some r), s') \<Rightarrow>
             if u8_get r 0 \<noteq> 0x58 then (Inl SamBAError, s') else (Inr (), s')))"

definition checksumBufferSize :: number where
  "checksumBufferSize = 4096"

definition samba_writeBuffer :: "number \<Rightarrow> number \<Rightarrow> number \<Rightarrow> ('a samba_scheme, unit) action" where
  "samba_writeBuffer src_addr dst_addr size' s =
     (if \<not> canWriteBuffer s then (Inl SamBAError, s)
      else if size' > checksumBufferSize then (Inl SamBAError, s)
      else
        (case sendCommand (CmdY src_addr 0) 3 None 0 s of
           (Inl e, s1) \<Rightarrow> (Inl e, s1)
         | (Inr None, s1) \<Rightarrow> (Inl SamBAError, s1)
         | (Inr (Some r), s1) \<Rightarrow>
             if u8_get r 0 \<noteq> 0x59 then (Inl SamBAError, s1)
             else
               (case sendCommand (CmdY dst_addr size') 3 None 0 s1 of
                  (Inl e, s2) \<Rightarrow> (Inl e, s2)
                | (Inr None, s2) \<Rightarrow> (Inl SamBAError, s2)
                | (Inr (Some r2), s2) \<Rightarrow>
                    if u8_get r2 0 \<noteq> 0x59 then (Inl SamBAError, s2) else (Inr (), s2))))"

subsection \<open>decodeResponse\<close>

text \<open>
  The buffer is the caller's array, changed in place, so the function returns it next to
  the string. The two conjuncts of the source's condition are assignments.
\<close>

definition decodeResponse :: "byte list \<Rightarrow> string \<times> byte list" where
  "decodeResponse buffer =
     (if length buffer > 2 then
        (let (v1, buffer1) = u8_assign buffer (of_nat (length buffer) - 1) 0x0c in
         if truthy v1 then
           (let (v2, buffer2) = u8_assign buffer1 (of_nat (length buffer) - 2) 0x0a in
            if truthy v2 then
              (ascii_decode (subarray 0 (length buffer - 2) buffer2), buffer2)
            else (ascii_decode buffer2, buffer2))
         else (ascii_decode buffer1, buffer1))
      else (ascii_decode buffer, buffer))"

definition setBinaryMode :: "('a samba_scheme, byte list option) action" where
  "setBinaryMode = sendCommand CmdN 2 None 0"

definition readVersion :: "('a samba_scheme, string) action" where
  "readVersion s =
     (case sendCommand CmdV 256 None 0 s of
        (Inl e, s') \<Rightarrow> (Inl e, s')
      | (Inr None, s') \<Rightarrow> (Inl SamBAError, s')
      | (Inr (Some b), s') \<Rightarrow> (Inr (fst (decodeResponse b)), s'))"

subsection \<open>Capability discovery in \<open>_connect\<close>\<close>

fun indexOf_from :: "string \<Rightarrow> string \<Rightarrow> nat \<Rightarrow> int" where
  "indexOf_from [] needle i = (if needle = [] then int i else - 1)"
| "indexOf_from (c # cs) needle i =
     (if take (length needle) (c # cs) = needle then int i
      else indexOf_from cs needle (Suc i))"

definition indexOf :: "string \<Rightarrow> string \<Rightarrow> int" where
  "indexOf version needle = indexOf_from version needle 0"

definition extension :: "char \<Rightarrow> 'a samba_scheme \<Rightarrow> 'a samba_scheme" where
  "extension c s =
     (if c = CHR ''X'' then s\<lparr> canChipErase := True \<rparr>
      else if c = CHR ''Y'' then s\<lparr> canWriteBuffer := True \<rparr>
      else if c = CHR ''Z'' then s\<lparr> canChecksumBuffer := True \<rparr>
      else if c = CHR ''P'' then s\<lparr> canProtect := True \<rparr>
      else s)"

function extensions_loop :: "string \<Rightarrow> nat \<Rightarrow> 'a samba_scheme \<Rightarrow> 'a samba_scheme" where
  "extensions_loop version extIndex s =
     (if extIndex < length version \<and> version ! extIndex \<noteq> CHR '']'' then
        extensions_loop version (Suc extIndex) (extension (version ! extIndex) s)
      else s)"
  by pat_completeness auto
termination
  by (relation "measure (\<lambda>(version, extIndex, s). length version - extIndex)") auto

declare extensions_loop.simps [simp del]

definition discover :: "string \<Rightarrow> 'a samba_scheme \<Rightarrow> 'a samba_scheme" where
  "discover version s =
     (let extIndex = indexOf version ''[Arduino:'' in
      if extIndex \<noteq> - 1 then
        (extensions_loop version (nat (extIndex + 9)) s)\<lparr> readBufferSize := 63 \<rparr>
      else s)"

definition connect :: "('a samba_scheme, unit) action" where
  "connect s =
     (let (cleared, s1) = readBuffer None s
      in case setBinaryMode s1 of
           (Inl e, s2) \<Rightarrow> (Inl e, s2)
         | (Inr mode, s2) \<Rightarrow>
             (case readVersion s2 of
                (Inl e, s3) \<Rightarrow> (Inl e, s3)
              | (Inr version, s3) \<Rightarrow> (Inr (), discover version s3)))"

subsection \<open>read\<close>

text \<open>The inner \<open>for\<close> loop that stores a chunk; \<open>start\<close> is advanced once per byte.\<close>

function read_copy ::
  "number \<Rightarrow> number \<Rightarrow> byte list \<Rightarrow> number \<Rightarrow> byte list \<Rightarrow> byte list \<times> number" where
  "read_copy i chunk result start buffer =
     (if i < chunk then
        read_copy (i + 1) chunk result (start + 1) (u8_set buffer start (u8_get result i))
      else (buffer, start))"
  by pat_completeness auto
termination
proof (relation "measure (\<lambda>(i, chunk, result, start, buffer). nat \<lceil>chunk - i\<rceil>)")
  show "wf (measure (\<lambda>(i, chunk, result, start, buffer). nat \<lceil>chunk - i\<rceil>))"
    by simp
next
  fix i chunk :: number and result buffer :: "byte list" and start :: number
  assume less: "i < chunk"
  have "\<lceil>chunk - (i + 1)\<rceil> = \<lceil>chunk - i\<rceil> - 1"
    using ceiling_diff_one [of "chunk - i"] by (simp add: algebra_simps)
  moreover have "0 < \<lceil>chunk - i\<rceil>"
    using less by simp
  ultimately show
    "((i + 1, chunk, result, start + 1, u8_set buffer start (u8_get result i)),
      (i, chunk, result, start, buffer))
       \<in> measure (\<lambda>(i, chunk, result, start, buffer). nat \<lceil>chunk - i\<rceil>)"
    by simp
qed

declare read_copy.simps [simp del]

lemma sendCommand_incoming:
  "sendCommand cmd n d z s = (Inr (Some r), s') \<Longrightarrow> length (incoming s') < length (incoming s)"
  by (auto simp: sendCommand_def readBuffer_def Let_def split: if_splits list.splits option.splits)

text \<open>
  The \<open>while\<close> loop of \<open>read\<close>. After the inner loop has advanced \<open>start\<close>, the
  source adds \<open>chunk\<close> to it once more.
\<close>

function read_loop ::
  "number \<Rightarrow> byte list \<Rightarrow> number \<Rightarrow> number \<Rightarrow> ('a samba_scheme, byte list) action" where
  "read_loop addr buffer size' start s =
     (if size' > 0 then
        (let chunk = (if readBufferSize s > 0 \<and> size' > readBufferSize s
                      then readBufferSize s else size');
             (result, s') = sendCommand (CmdR addr chunk) chunk None 0 s
         in case result of
              Inl e \<Rightarrow> (Inl e, s')
            | Inr (Some r) \<Rightarrow>
                (let (buffer', start') = read_copy 0 chunk r start buffer in
                 read_loop (addr + chunk) buffer' (size' - chunk) (start' + chunk) s')
            | Inr None \<Rightarrow> (Inl SamBAError, s'))
      else (Inr buffer, s))"
  by pat_completeness auto
termination
  apply (relation "measure (\<lambda>(addr, buffer, size', start, s). length (incoming s))")
   apply simp
  subgoal for addr buffer size' start s chunk x result s' ro r
    using sendCommand_incoming [of "CmdR addr chunk" chunk None 0 s r s'] by simp
  done

declare read_loop.simps [simp del]

text \<open>\<open>read\<close> fills the caller's buffer in place; the model returns the filled buffer.\<close>

definition samba_read :: "number \<Rightarrow> byte list \<Rightarrow> number \<Rightarrow> ('a samba_scheme, byte list) action" where
  "samba_read addr buffer size' s =
     (if readBufferSize s = 0 \<and> size' > 32 \<and> \<not> truthy (js_and size' (size' - 1)) then
        (case readByte addr s of
           (Inl e, s') \<Rightarrow> (Inl e, s')
         | (Inr v, s') \<Rightarrow> read_loop (addr + 1) (u8_set buffer 0 v) (size' - 1) 1 s')
      else read_loop addr buffer size' 0 s)"

text \<open>The commands among the entries of a log, in order.\<close>

fun sent_commands :: "event list \<Rightarrow> command list" where
  "sent_commands [] = []"
| "sent_commands (Sent c d # es) = c # sent_commands es"
| "sent_commands (Recv r # es) = sent_commands es"
| "sent_commands (BufferSwitch # es) = sent_commands es"
| "sent_commands (Late c # es) = sent_commands es"

subsection \<open>What a command exchange changes\<close>

text \<open>
  A client operation only appends to the log, consumes scripted input and may leave a
  write in flight; \<open>io\<close> says so. All other fields, also those of the records that extend
  \<open>samba\<close>, stay as they are.
\<close>

lemma loop_measure_step:
  fixes i n :: real
  assumes "i < n"
  shows "nat \<lceil>n - (i + 1)\<rceil> < nat \<lceil>n - i\<rceil>"
proof -
  have "\<lceil>n - (i + 1)\<rceil> = \<lceil>n - i\<rceil> - 1"
    using ceiling_diff_one [of "n - i"] by (simp add: algebra_simps)
  moreover have "0 < \<lceil>n - i\<rceil>" using assms by simp
  ultimately show ?thesis by simp
qed

lemma loop_ceiling_step:
  fixes i n :: real
  shows "\<lceil>n - (i + 1)\<rceil> < \<lceil>n - i\<rceil>"
  using ceiling_diff_one [of "n - i"] by (simp add: algebra_simps)

fun is_go :: "event \<Rightarrow> bool" where
  "is_go (Sent (CmdG a) d) = True"
| "is_go e = False"

definition quiet :: "event list \<Rightarrow> bool" where
  "quiet es = (\<forall>e \<in> set es. e \<noteq> BufferSwitch \<and> \<not> is_go e)"

lemma quiet_simps [simp]:
  "quiet []" "quiet (a @ b) = (quiet a \<and> quiet b)"
  "quiet (e # es) = (e \<noteq> BufferSwitch \<and> \<not> is_go e \<and> quiet es)"
  by (auto simp: quiet_def)

definition io :: "'a samba_scheme \<Rightarrow> 'a samba_scheme \<Rightarrow> bool" where
  "io s s' = (\<exists>es k f. s' = s\<lparr> wire := wire s @ es, incoming := drop k (incoming s),
                                  inflight := f \<rparr> \<and> quiet es)"

lemma io_refl: "io s s"
  unfolding io_def by (rule exI [of _ "[]"], rule exI [of _ 0], rule exI [of _ "inflight s"]) simp

lemma io_trans: "io s s1 \<Longrightarrow> io s1 s2 \<Longrightarrow> io s s2"
proof -
  assume "io s s1" "io s1 s2"
  then obtain es k f es' k' f' where
    a: "s1 = s\<lparr> wire := wire s @ es, incoming := drop k (incoming s), inflight := f \<rparr>" and
    b: "s2 = s1\<lparr> wire := wire s1 @ es', incoming := drop k' (incoming s1), inflight := f' \<rparr>"
    and q: "quiet es" "quiet es'"
    unfolding io_def by blast
  have "s2 = s\<lparr> wire := wire s @ (es @ es'), incoming := drop (k' + k) (incoming s),
                 inflight := f' \<rparr>"
    unfolding b a by simp
  moreover have "quiet (es @ es')" using q by simp
  ultimately show "io s s2" unfolding io_def by blast
qed

lemma readBuffer_io: "readBuffer n s = (r, s') \<Longrightarrow> io s s'"
proof -
  assume a: "readBuffer n s = (r, s')"
  show ?thesis
  proof (cases "incoming s")
    case Nil
    with a have "s' = s\<lparr> wire := wire s @ [Recv r], incoming := drop 0 (incoming s),
                          inflight := inflight s \<rparr>"
      by (auto simp: readBuffer_def Let_def)
    moreover have "quiet [Recv r]" by simp
    ultimately show ?thesis unfolding io_def by blast
  next
    case (Cons b bs)
    with a have "s' = s\<lparr> wire := wire s @ [Recv r], incoming := drop 1 (incoming s),
                          inflight := inflight s \<rparr>"
      by (auto simp: readBuffer_def Let_def)
    moreover have "quiet [Recv r]" by simp
    ultimately show ?thesis unfolding io_def by blast
  qed
qed

lemma sendCommand_io:
  "sendCommand cmd n d z s = (r, s') \<Longrightarrow> \<not> is_go (Sent cmd d) \<Longrightarrow> io s s'"
proof -
  assume a: "sendCommand cmd n d z s = (r, s')" and g: "\<not> is_go (Sent cmd d)"
  have 1: "io s (s\<lparr> wire := wire s @ [Sent cmd d] \<rparr>)"
    unfolding io_def using g
    by (intro exI [of _ "[Sent cmd d]"] exI [of _ 0] exI [of _ "inflight s"]) simp
  show ?thesis
  proof (cases "inflight s")
    case (Some c)
    with a have "s' = s\<lparr> wire := wire s @ [], incoming := drop 0 (incoming s),
                          inflight := Some cmd \<rparr>"
      by (simp add: sendCommand_def)
    then show ?thesis unfolding io_def
      by (intro exI [of _ "[]"] exI [of _ 0] exI [of _ "Some cmd"]) simp
  next
    case None
    show ?thesis
    proof (cases "n > 0")
      case True
      obtain r' where "readBuffer (Some n) (s\<lparr> wire := wire s @ [Sent cmd d] \<rparr>) = (r', s')"
        using a None True by (auto simp: sendCommand_def Let_def split: prod.splits)
      from io_trans [OF 1 readBuffer_io [OF this]] show ?thesis .
    next
      case False
      with a None have "s' = s\<lparr> wire := wire s @ [Sent cmd d] \<rparr>"
        by (simp add: sendCommand_def Let_def)
      with 1 show ?thesis by simp
    qed
  qed
qed

lemma io_inflight: "io s (s\<lparr> inflight := f \<rparr>)"
  unfolding io_def by (intro exI [of _ "[]"] exI [of _ 0] exI [of _ f]) simp

lemma readByte_io: "readByte addr s = (r, s') \<Longrightarrow> io s s'"
  by (auto simp: readByte_def Let_def split: prod.splits option.splits sum.splits
           dest: sendCommand_io)

lemma readByte_incoming:
  "readByte addr s = (Inr v, s') \<Longrightarrow> length (incoming s') < length (incoming s)"
  by (auto simp: readByte_def Let_def split: prod.splits option.splits sum.splits
           dest: sendCommand_incoming)

lemma readWord_incoming:
  "readWord addr s = (Inr v, s') \<Longrightarrow> length (incoming s') < length (incoming s)"
  by (auto simp: readWord_def Let_def split: prod.splits option.splits sum.splits
           dest: sendCommand_incoming)

section \<open>The applet (applet.ts, wordcopyapplet.ts)\<close>

text \<open>
  The applet and the flash driver keep a reference to the one SAM-BA client of the
  session. The records below extend \<open>samba\<close>, so a driver state contains the client's
  fields and every client operation applies to it directly.
\<close>

definition modify :: "('s \<Rightarrow> 's) \<Rightarrow> ('s, unit) action" where
  "modify f = (\<lambda>s. (Inr (), f s))"

record applet = samba +
  applet_addr :: number
  applet_size :: number
  applet_start :: number
  applet_stack :: number
  applet_reset :: number
  applet_code :: "byte list"
  installed :: bool

definition checkInstall :: "('a applet_scheme, unit) action" where
  "checkInstall s =
     (if \<not> installed s then
        next_do (samba_write (applet_addr s) (applet_code s) (applet_size s))
                (modify (\<lambda>s. s\<lparr> installed := True \<rparr>)) s
      else (Inr (), s))"

definition setStack :: "number \<Rightarrow> ('a applet_scheme, unit) action" where
  "setStack stack = next_do checkInstall (\<lambda>s. writeWord (applet_stack s) stack s)"

definition run :: "('a applet_scheme, unit) action" where
  "run = next_do checkInstall (\<lambda>s. go (applet_start s + 1) s)"

definition runv :: "('a applet_scheme, unit) action" where
  "runv =
     next_do checkInstall
       (next_do (\<lambda>s. writeWord (applet_reset s) (applet_start s + 1) s)
                (\<lambda>s. go (applet_stack s) s))"

definition applet_dst_addr :: number where "applet_dst_addr = 0x28"
definition applet_reset_off :: number where "applet_reset_off = 0x24"
definition applet_src_addr :: number where "applet_src_addr = 0x2c"
definition applet_stack_off :: number where "applet_stack_off = 0x20"
definition applet_start_off :: number where "applet_start_off = 0x00"
definition applet_words :: number where "applet_words = 0x30"

definition wordcopy_code :: "byte list" where
  "wordcopy_code =
     [0x09, 0x48, 0x0a, 0x49, 0x0a, 0x4a, 0x02, 0xe0, 0x08, 0xc9, 0x08, 0xc0, 0x01, 0x3a, 0x00, 0x2a,
      0xfa, 0xd1, 0x04, 0x48, 0x00, 0x28, 0x01, 0xd1, 0x01, 0x48, 0x85, 0x46, 0x70, 0x47, 0xc0, 0x46,
      0x00, 0x00, 0x00, 0x00, 0x00, 0x00, 0x00, 0x00, 0x00, 0x00, 0x00, 0x00, 0x00, 0x00, 0x00, 0x00,
      0x00, 0x00, 0x00, 0x00]"

definition setDstAddr :: "number \<Rightarrow> ('a applet_scheme, unit) action" where
  "setDstAddr dstAddr =
     next_do checkInstall (\<lambda>s. writeWord (applet_addr s + applet_dst_addr) dstAddr s)"

definition setSrcAddr :: "number \<Rightarrow> ('a applet_scheme, unit) action" where
  "setSrcAddr srcAddr =
     next_do checkInstall (\<lambda>s. writeWord (applet_addr s + applet_src_addr) srcAddr s)"

definition setWords :: "number \<Rightarrow> ('a applet_scheme, unit) action" where
  "setWords words =
     next_do checkInstall (\<lambda>s. writeWord (applet_addr s + applet_words) words s)"

section \<open>The flash base class (flash.ts)\<close>

record 'v flashOption =
  opt_value :: 'v
  opt_dirty :: bool

definition FlashOption_new :: "'v \<Rightarrow> 'v flashOption" where
  "FlashOption_new v = \<lparr> opt_value = v, opt_dirty = False \<rparr>"

definition opt_set :: "'v \<Rightarrow> 'v flashOption \<Rightarrow> 'v flashOption" where
  "opt_set v opt = opt\<lparr> opt_value := v, opt_dirty := True \<rparr>"

definition opt_get :: "'v flashOption \<Rightarrow> 'v" where
  "opt_get opt = opt_value opt"

definition isDirty :: "'v flashOption \<Rightarrow> bool" where
  "isDirty opt = opt_dirty opt"

record flash = applet +
  flash_addr :: number
  flash_pages :: number
  flash_size :: number
  flash_planes :: number
  flash_lockRegions :: number
  flash_user :: number
  flash_stack :: number
  prepared :: bool
  bootFlash :: "bool flashOption"
  regions :: "bool list flashOption"
  bod :: "bool flashOption"
  bor :: "bool flashOption"
  security :: "bool flashOption"
  onBufferA :: bool
  pageBufferA :: number
  pageBufferB :: number
  eraseAuto :: bool

text \<open>
  The constructor of \<open>Flash\<close>, with the \<open>WordCopyApplet\<close> it creates and the
  \<open>_eraseAuto = true\<close> of both subclasses. The board name is not kept.
\<close>

definition Flash_new ::
  "samba \<Rightarrow> number \<Rightarrow> number \<Rightarrow> number \<Rightarrow> number \<Rightarrow> number \<Rightarrow> number \<Rightarrow> number
     \<Rightarrow> error + flash" where
  "Flash_new sb addr pages size' planes lockRegions user stack =
     (if \<not> (js_and size' (size' - 1) = 0) then Inl FlashConfigError
      else if \<not> (js_and pages (pages - 1) = 0) then Inl FlashConfigError
      else if \<not> (js_and lockRegions (lockRegions - 1) = 0) then Inl FlashConfigError
      else
        (let bufferA = of_int (trunc ((user + of_nat (length wordcopy_code) + 3) / 4)) * 4 in
         Inr \<lparr> canChipErase = canChipErase sb, canWriteBuffer = canWriteBuffer sb,
               canChecksumBuffer = canChecksumBuffer sb, canProtect = canProtect sb,
               readBufferSize = readBufferSize sb, wire = wire sb, incoming = incoming sb,
               inflight = inflight sb,
               applet_addr = user, applet_size = of_nat (length wordcopy_code),
               applet_start = user + applet_start_off, applet_stack = user + applet_stack_off,
               applet_reset = user + applet_reset_off, applet_code = wordcopy_code,
               installed = False,
               flash_addr = addr, flash_pages = pages, flash_size = size',
               flash_planes = planes, flash_lockRegions = lockRegions, flash_user = user,
               flash_stack = stack, prepared = False,
               bootFlash = FlashOption_new True, regions = FlashOption_new [],
               bod = FlashOption_new True, bor = FlashOption_new True,
               security = FlashOption_new True,
               onBufferA = True, pageBufferA = bufferA, pageBufferB = bufferA + size',
               eraseAuto = True \<rparr>))"

definition totalSize :: "'a flash_scheme \<Rightarrow> number" where
  "totalSize s = flash_size s * flash_pages s"

text \<open>Both drivers answer \<open>canBod\<close> and \<open>canBor\<close> with true and \<open>canBootFlash\<close> with false.\<close>

definition canBod :: bool where "canBod = True"
definition canBor :: bool where "canBor = True"
definition canBootFlash :: bool where "canBootFlash = False"

definition setLockRegions :: "bool list \<Rightarrow> ('a flash_scheme, unit) action" where
  "setLockRegions rs s =
     (if of_nat (length rs) > flash_lockRegions s then (Inl FlashRegionError, s)
      else (Inr (), s\<lparr> regions := opt_set rs (regions s) \<rparr>))"

definition setSecurity :: "('a flash_scheme, unit) action" where
  "setSecurity = modify (\<lambda>s. s\<lparr> security := opt_set True (security s) \<rparr>)"

definition setBod :: "bool \<Rightarrow> ('a flash_scheme, unit) action" where
  "setBod enable = modify (\<lambda>s. if canBod then s\<lparr> bod := opt_set enable (bod s) \<rparr> else s)"

definition setBor :: "bool \<Rightarrow> ('a flash_scheme, unit) action" where
  "setBor enable = modify (\<lambda>s. if canBor then s\<lparr> bor := opt_set enable (bor s) \<rparr> else s)"

definition setBootFlash :: "bool \<Rightarrow> ('a flash_scheme, unit) action" where
  "setBootFlash enable =
     modify (\<lambda>s. if canBootFlash then s\<lparr> bootFlash := opt_set enable (bootFlash s) \<rparr> else s)"

definition set_eraseAuto :: "bool \<Rightarrow> ('a flash_scheme, unit) action" where
  "set_eraseAuto enable = modify (\<lambda>s. s\<lparr> eraseAuto := enable \<rparr>)"

definition activeBuffer :: "'a flash_scheme \<Rightarrow> number" where
  "activeBuffer s = (if onBufferA s then pageBufferA s else pageBufferB s)"

definition flash_writeBuffer :: "number \<Rightarrow> number \<Rightarrow> ('a flash_scheme, unit) action" where
  "flash_writeBuffer dst_addr size' s =
     samba_writeBuffer (activeBuffer s) (dst_addr + flash_addr s) size' s"

definition loadBuffer :: "byte list \<Rightarrow> number \<Rightarrow> number \<Rightarrow> ('a flash_scheme, unit) action" where
  "loadBuffer data offset bufferSize s =
     (let data' = (if offset > 0 then drop (nat (trunc offset)) data else data)
      in samba_write (activeBuffer s) data' bufferSize s)"

definition prepareApplet :: "('a flash_scheme, unit) action" where
  "prepareApplet s =
     (if \<not> prepared s then
        next_do (setWords (flash_size s / 4))
          (next_do (setStack (flash_stack s)) (modify (\<lambda>s. s\<lparr> prepared := True \<rparr>))) s
      else (Inr (), s))"

text \<open>The statement \<open>this._onBufferA = !this._onBufferA\<close>, written to the log as well.\<close>

definition switchBuffer :: "('a flash_scheme, unit) action" where
  "switchBuffer =
     modify (\<lambda>s. s\<lparr> onBufferA := \<not> onBufferA s, wire := wire s @ [BufferSwitch] \<rparr>)"

text \<open>
  \<open>getLockRegions\<close> is the same in both drivers up to the address of the lock bytes.
  The array it fills has \<open>_lockRegions\<close> entries (16 or 32).
\<close>

function getLockRegions_loop ::
  "number \<Rightarrow> number \<Rightarrow> number \<Rightarrow> bool list \<Rightarrow> ('a flash_scheme, bool list) action" where
  "getLockRegions_loop region lockBits addr rs s =
     (if region < flash_lockRegions s then
        (if js_mod region 8 = 0 then
           (case readByte addr s of
              (Inl e, s') \<Rightarrow> (Inl e, s')
            | (Inr v, s') \<Rightarrow>
                getLockRegions_loop (region + 1) v (addr + 1)
                  (rs @ [js_and v (js_shl 1 (js_mod region 8)) = 0]) s')
         else
           getLockRegions_loop (region + 1) lockBits addr
             (rs @ [js_and lockBits (js_shl 1 (js_mod region 8)) = 0]) s)
      else (Inr rs, s))"
  by pat_completeness auto

lemma io_lockRegions:
  fixes s :: "'a flash_scheme"
  shows "io s s' \<Longrightarrow> flash_lockRegions s' = flash_lockRegions s"
  unfolding io_def by auto

termination getLockRegions_loop
proof (relation "measure (\<lambda>(region, lockBits, addr, rs, s). nat \<lceil>flash_lockRegions s - region\<rceil>)")
  show "wf (measure (\<lambda>(region, lockBits, addr, rs, s). nat \<lceil>flash_lockRegions s - region\<rceil>))"
    by simp
next
  fix region lockBits addr :: number and rs :: "bool list" and s s' :: "'a flash_scheme"
    and x v
  assume less: "region < flash_lockRegions s" and rb: "(x, s') = readByte addr s"
  have eq: "flash_lockRegions s' = flash_lockRegions s"
    using readByte_io [of addr s x s'] rb io_lockRegions by auto
  show "((region + 1, v, addr + 1,
           rs @ [js_and v (js_shl 1 (js_mod region 8)) = 0], s'),
          region, lockBits, addr, rs, s)
         \<in> measure (\<lambda>(region, lockBits, addr, rs, s). nat \<lceil>flash_lockRegions s - region\<rceil>)"
    using loop_measure_step [OF less] by (simp add: eq)
next
  fix region lockBits addr :: number and rs :: "bool list" and s :: "'a flash_scheme"
  assume less: "region < flash_lockRegions s"
  show "((region + 1, lockBits, addr,
           rs @ [js_and lockBits (js_shl 1 (js_mod region 8)) = 0], s),
          region, lockBits, addr, rs, s)
         \<in> measure (\<lambda>(region, lockBits, addr, rs, s). nat \<lceil>flash_lockRegions s - region\<rceil>)"
    using loop_measure_step [OF less] by simp
qed

declare getLockRegions_loop.simps [simp del]

text \<open>
  The comparison loop of \<open>writeOptions\<close>: it walks the requested regions and stops at
  the first one that differs from the current state (a missing current entry differs).
\<close>

fun regions_equal :: "bool list \<Rightarrow> bool list \<Rightarrow> bool" where
  "regions_equal [] current = True"
| "regions_equal (r # rs) [] = False"
| "regions_equal (r # rs) (c # cs) = (r = c \<and> regions_equal rs cs)"

text \<open>
  The loop of \<open>writeOptions\<close> that sets the lock bits in the user row. The byte index
  is \<open>offset + region / 8\<close> with the real quotient, as the source computes it.
\<close>

function lock_loop :: "bool list \<Rightarrow> number \<Rightarrow> nat \<Rightarrow> byte list \<Rightarrow> byte list" where
  "lock_loop rs lockOffset region userRow =
     (if region < length rs then
        (let i = lockOffset + of_nat region / 8;
             bit = js_shl 1 (js_mod (of_nat region) 8)
         in if rs ! region
            then lock_loop rs lockOffset (Suc region)
                   (u8_set userRow i (js_and (u8_get userRow i) (js_not bit)))
            else lock_loop rs lockOffset (Suc region)
                   (u8_set userRow i (js_or (u8_get userRow i) bit)))
      else userRow)"
  by pat_completeness auto
termination
  by (relation "measure (\<lambda>(rs, lockOffset, region, userRow). length rs - region)") auto

declare lock_loop.simps [simp del]

definition CMDEX_KEY :: number where "CMDEX_KEY = 0xa500"
definition NVM_REG_BASE :: number where "NVM_REG_BASE = 0x41004000"

section \<open>The D2x driver (D2xNvmFlash.ts)\<close>

definition D2x_NVM_CTRL_STATUS_MASK :: number where "D2x_NVM_CTRL_STATUS_MASK = 0xFFEB"
definition D2x_NVM_REG_CTRLA :: number where "D2x_NVM_REG_CTRLA = 0x00"
definition D2x_NVM_REG_CTRLB :: number where "D2x_NVM_REG_CTRLB = 0x04"
definition D2x_NVM_REG_INTFLAG :: number where "D2x_NVM_REG_INTFLAG = 0x14"
definition D2x_NVM_REG_STATUS :: number where "D2x_NVM_REG_STATUS = 0x18"
definition D2x_NVM_REG_ADDR :: number where "D2x_NVM_REG_ADDR = 0x1c"
definition D2x_NVM_CMD_ER :: number where "D2x_NVM_CMD_ER = 0x02"
definition D2x_NVM_CMD_WP :: number where "D2x_NVM_CMD_WP = 0x04"
definition D2x_NVM_CMD_EAR :: number where "D2x_NVM_CMD_EAR = 0x05"
definition D2x_NVM_CMD_WAP :: number where "D2x_NVM_CMD_WAP = 0x06"
definition D2x_NVM_CMD_SSB :: number where "D2x_NVM_CMD_SSB = 0x45"
definition D2x_NVM_CMD_PBC :: number where "D2x_NVM_CMD_PBC = 0x44"
definition D2x_ERASE_ROW_PAGES :: number where "D2x_ERASE_ROW_PAGES = 4"
definition D2x_NVM_UR_ADDR :: number where "D2x_NVM_UR_ADDR = 0x804000"
definition D2x_NVM_UR_BOD33_ENABLE_OFFSET :: number where "D2x_NVM_UR_BOD33_ENABLE_OFFSET = 0x1"
definition D2x_NVM_UR_BOD33_ENABLE_MASK :: number where "D2x_NVM_UR_BOD33_ENABLE_MASK = 0x6"
definition D2x_NVM_UR_BOD33_RESET_OFFSET :: number where "D2x_NVM_UR_BOD33_RESET_OFFSET = 0x1"
definition D2x_NVM_UR_BOD33_RESET_MASK :: number where "D2x_NVM_UR_BOD33_RESET_MASK = 0x7"
definition D2x_NVM_UR_NVM_LOCK_OFFSET :: number where "D2x_NVM_UR_NVM_LOCK_OFFSET = 0x6"

definition D2xNvmFlash_new ::
  "samba \<Rightarrow> number \<Rightarrow> number \<Rightarrow> number \<Rightarrow> number \<Rightarrow> error + flash" where
  "D2xNvmFlash_new sb pages size' user stack = Flash_new sb 0 pages size' 1 16 user stack"

definition D2x_NVM_UR_SIZE :: "'a flash_scheme \<Rightarrow> number" where
  "D2x_NVM_UR_SIZE s = flash_size s * D2x_ERASE_ROW_PAGES"

definition d2x_readReg :: "number \<Rightarrow> ('a samba_scheme, number) action" where
  "d2x_readReg reg = readWord (NVM_REG_BASE + reg)"

definition d2x_writeReg :: "number \<Rightarrow> number \<Rightarrow> ('a samba_scheme, unit) action" where
  "d2x_writeReg reg v = writeWord (NVM_REG_BASE + reg) v"

function d2x_waitReady :: "('a samba_scheme, unit) action" where
  "d2x_waitReady s =
     (case d2x_readReg D2x_NVM_REG_INTFLAG s of
        (Inl e, s') \<Rightarrow> (Inl e, s')
      | (Inr v, s') \<Rightarrow> if js_and v 0x1 = 0 then d2x_waitReady s' else (Inr (), s'))"
  by pat_completeness auto
termination
proof (relation "measure (\<lambda>s. length (incoming s))")
  show "wf (measure (\<lambda>s. length (incoming s)))" by simp
next
  fix s s' :: "'a samba_scheme" and x v
  assume "(x, s') = d2x_readReg D2x_NVM_REG_INTFLAG s" "x = Inr v"
  then have "readWord (NVM_REG_BASE + D2x_NVM_REG_INTFLAG) s = (Inr v, s')"
    by (simp add: d2x_readReg_def)
  from readWord_incoming [OF this] show "(s', s) \<in> measure (\<lambda>s. length (incoming s))" by simp
qed

declare d2x_waitReady.simps [simp del]

definition d2x_command :: "number \<Rightarrow> ('a samba_scheme, unit) action" where
  "d2x_command cmd =
     next_do d2x_waitReady
       (next_do (d2x_writeReg D2x_NVM_REG_CTRLA (js_or CMDEX_KEY cmd))
          (next_do d2x_waitReady
             (andThen (d2x_readReg D2x_NVM_REG_INTFLAG)
                (\<lambda>flags. if truthy (js_and flags 0x2)
                   then next_do (d2x_writeReg D2x_NVM_REG_INTFLAG 0x2) (throw FlashCmdError)
                   else ret ()))))"

function d2x_erase_loop :: "number \<Rightarrow> number \<Rightarrow> number \<Rightarrow> ('a flash_scheme, unit) action" where
  "d2x_erase_loop eraseNum eraseEnd eraseSize s =
     (if eraseNum < eraseEnd then
        next_do d2x_waitReady
          (andThen (d2x_readReg D2x_NVM_REG_STATUS)
             (\<lambda>statusReg.
                next_do (d2x_writeReg D2x_NVM_REG_STATUS (js_or statusReg D2x_NVM_CTRL_STATUS_MASK))
                  (next_do (d2x_writeReg D2x_NVM_REG_ADDR ((eraseNum * eraseSize) / 2))
                     (next_do (d2x_command D2x_NVM_CMD_ER)
                        (\<lambda>s'. d2x_erase_loop (eraseNum + 1) eraseEnd eraseSize s'))))) s
      else (Inr (), s))"
  by pat_completeness auto
termination
  by (relation "measure (\<lambda>(eraseNum, eraseEnd, eraseSize, s). nat \<lceil>eraseEnd - eraseNum\<rceil>)")
     (auto simp: loop_ceiling_step)

declare d2x_erase_loop.simps [simp del]

definition d2x_erase :: "number \<Rightarrow> number \<Rightarrow> ('a flash_scheme, unit) action" where
  "d2x_erase offset size' s =
     (let eraseSize = flash_size s * D2x_ERASE_ROW_PAGES in
      if truthy (js_mod offset eraseSize) then (Inl FlashEraseError, s)
      else if offset + size' > totalSize s then (Inl FlashEraseError, s)
      else
        (let eraseEnd = (offset + size' + eraseSize - 1) / eraseSize
         in d2x_erase_loop (offset / eraseSize) eraseEnd eraseSize s))"

definition d2x_eraseAll :: "number \<Rightarrow> ('a flash_scheme, unit) action" where
  "d2x_eraseAll offset s =
     (if canChipErase s then chipErase offset s
      else d2x_erase offset (totalSize s - offset) s)"

definition d2x_getLockRegions :: "('a flash_scheme, bool list) action" where
  "d2x_getLockRegions =
     getLockRegions_loop 0 0 (D2x_NVM_UR_ADDR + D2x_NVM_UR_NVM_LOCK_OFFSET) []"

definition d2x_getSecurity :: "('a samba_scheme, bool) action" where
  "d2x_getSecurity =
     andThen (d2x_readReg D2x_NVM_REG_STATUS) (\<lambda>reg. ret (js_and reg 0x100 \<noteq> 0))"

definition d2x_getBod :: "('a samba_scheme, bool) action" where
  "d2x_getBod =
     andThen (readByte (D2x_NVM_UR_ADDR + D2x_NVM_UR_BOD33_ENABLE_OFFSET))
       (\<lambda>byte. ret (js_and byte D2x_NVM_UR_BOD33_ENABLE_MASK \<noteq> 0))"

definition d2x_getBor :: "('a samba_scheme, bool) action" where
  "d2x_getBor =
     andThen (readByte (D2x_NVM_UR_ADDR + D2x_NVM_UR_BOD33_RESET_OFFSET))
       (\<lambda>byte. ret (js_and byte D2x_NVM_UR_BOD33_RESET_MASK \<noteq> 0))"

definition d2x_readUserRow :: "byte list \<Rightarrow> ('a flash_scheme, byte list) action" where
  "d2x_readUserRow userRow s =
     (if of_nat (length userRow) \<noteq> D2x_NVM_UR_SIZE s then (Inl InvalidBufferSize, s)
      else samba_read D2x_NVM_UR_ADDR userRow (D2x_NVM_UR_SIZE s) s)"

text \<open>
  \<open>writeOptions\<close>, in the order of the source: the BOR step, the BOD step and the lock
  step each return the user row buffer they may have read and changed; then the row is
  erased and written page by page; the security bit comes last.
\<close>

definition d2x_options_bor :: "byte list \<Rightarrow> ('a flash_scheme, byte list) action" where
  "d2x_options_bor userRow s =
     (if canBor \<and> isDirty (bor s) then
        andThen d2x_getBor
          (\<lambda>current s.
             if opt_get (bor s) \<noteq> current then
               andThen (d2x_readUserRow userRow)
                 (\<lambda>row s.
                    (Inr (if opt_get (bor s)
                          then u8_set row D2x_NVM_UR_BOD33_RESET_OFFSET
                                 (js_or (u8_get row D2x_NVM_UR_BOD33_RESET_OFFSET)
                                        D2x_NVM_UR_BOD33_RESET_MASK)
                          else u8_set row D2x_NVM_UR_BOD33_RESET_OFFSET
                                 (js_and (u8_get row D2x_NVM_UR_BOD33_RESET_OFFSET)
                                         (js_not D2x_NVM_UR_BOD33_RESET_MASK))), s)) s
             else (Inr userRow, s)) s
      else (Inr userRow, s))"

definition d2x_options_bod :: "byte list \<Rightarrow> ('a flash_scheme, byte list) action" where
  "d2x_options_bod userRow s =
     (if canBod \<and> isDirty (bod s) then
        andThen d2x_getBod
          (\<lambda>current s.
             if opt_get (bod s) \<noteq> current then
               andThen (d2x_readUserRow userRow)
                 (\<lambda>row s.
                    (Inr (if opt_get (bod s)
                          then u8_set row D2x_NVM_UR_BOD33_ENABLE_OFFSET
                                 (js_or (u8_get row D2x_NVM_UR_BOD33_ENABLE_OFFSET)
                                        D2x_NVM_UR_BOD33_ENABLE_MASK)
                          else u8_set row D2x_NVM_UR_BOD33_ENABLE_OFFSET
                                 (js_and (u8_get row D2x_NVM_UR_BOD33_ENABLE_OFFSET)
                                         (js_not D2x_NVM_UR_BOD33_ENABLE_MASK))), s)) s
             else (Inr userRow, s)) s
      else (Inr userRow, s))"

definition d2x_options_regions :: "byte list \<Rightarrow> ('a flash_scheme, byte list) action" where
  "d2x_options_regions userRow s =
     (if isDirty (regions s) then
        andThen d2x_getLockRegions
          (\<lambda>current s.
             if \<not> regions_equal (opt_get (regions s)) current then
               andThen (d2x_readUserRow userRow)
                 (\<lambda>row s.
                    (Inr (lock_loop (opt_get (regions s)) D2x_NVM_UR_NVM_LOCK_OFFSET 0 row), s)) s
             else (Inr userRow, s)) s
      else (Inr userRow, s))"

definition d2x_manualWrite :: "('a samba_scheme, unit) action" where
  "d2x_manualWrite =
     andThen (d2x_readReg D2x_NVM_REG_CTRLB)
       (\<lambda>v. d2x_writeReg D2x_NVM_REG_CTRLB (js_or (js_or v (js_shl 0x1 18)) (js_shl 0x1 7)))"

definition d2x_writeRow_page :: "byte list \<Rightarrow> number \<Rightarrow> ('a flash_scheme, unit) action" where
  "d2x_writeRow_page userRow offset =
     next_do (\<lambda>s. loadBuffer userRow offset (flash_size s) s)
       (next_do (d2x_command D2x_NVM_CMD_PBC)
          (next_do prepareApplet
             (next_do (setDstAddr (D2x_NVM_UR_ADDR + offset))
                (next_do (\<lambda>s. setSrcAddr (activeBuffer s) s)
                   (next_do switchBuffer
                      (next_do d2x_waitReady
                         (next_do runv
                            (next_do (d2x_writeReg D2x_NVM_REG_ADDR ((D2x_NVM_UR_ADDR + offset) / 2))
                               (d2x_command D2x_NVM_CMD_WAP)))))))))"

subsection \<open>Sequencing\<close>

lemma andThen_cases:
  assumes "andThen m k s = (r, s')"
  obtains (fails) e where "m s = (Inl e, s')" "r = Inl e"
        | (goes) v s1 where "m s = (Inr v, s1)" "k v s1 = (r, s')"
  using assms by (auto simp: andThen_def split: prod.splits sum.splits)

lemma next_do_cases:
  assumes "next_do m k s = (r, s')"
  obtains (fails) e where "m s = (Inl e, s')" "r = Inl e"
        | (goes) s1 where "m s = (Inr (), s1)" "k s1 = (r, s')"
  using assms by (auto simp: next_do_def andThen_def split: prod.splits sum.splits)

lemma andThen_Inr: "m s = (Inr v, s1) \<Longrightarrow> andThen m k s = k v s1"
  by (simp add: andThen_def)

lemma andThen_Inl: "m s = (Inl e, s1) \<Longrightarrow> andThen m k s = (Inl e, s1)"
  by (simp add: andThen_def)

lemma next_do_Inr: "m s = (Inr u, s1) \<Longrightarrow> next_do m k s = k s1"
  by (simp add: next_do_def andThen_def)

lemma next_do_Inl: "m s = (Inl e, s1) \<Longrightarrow> next_do m k s = (Inl e, s1)"
  by (simp add: next_do_def andThen_def)

text \<open>\<open>keeps R m\<close>: every run of \<open>m\<close>, failed or not, relates the state before to the state after.\<close>

definition keeps :: "('s \<Rightarrow> 's \<Rightarrow> bool) \<Rightarrow> ('s, 'a) action \<Rightarrow> bool" where
  "keeps R m = (\<forall>s r s'. m s = (r, s') \<longrightarrow> R s s')"

lemma keepsI: "(\<And>s r s'. m s = (r, s') \<Longrightarrow> R s s') \<Longrightarrow> keeps R m"
  by (simp add: keeps_def)

lemma keepsD: "keeps R m \<Longrightarrow> m s = (r, s') \<Longrightarrow> R s s'"
  by (simp add: keeps_def)

lemma keeps_andThen:
  assumes "keeps R m" "\<And>v. keeps R (k v)" "transp R"
  shows "keeps R (andThen m k)"
proof (rule keepsI)
  fix s r s'
  assume "andThen m k s = (r, s')"
  then show "R s s'"
  proof (cases rule: andThen_cases)
    case (fails e)
    with assms(1) show ?thesis by (auto dest: keepsD)
  next
    case (goes v s1)
    from keepsD [OF assms(1) goes(1)] keepsD [OF assms(2) goes(2)] assms(3)
    show ?thesis by (auto dest: transpD)
  qed
qed

lemma keeps_next_do:
  assumes "keeps R m" "keeps R k" "transp R"
  shows "keeps R (next_do m k)"
  unfolding next_do_def using assms by (intro keeps_andThen) auto

lemma keeps_ret: "reflp R \<Longrightarrow> keeps R (ret x)"
  by (auto simp: keeps_def ret_def dest: reflpD)

lemma keeps_throw: "reflp R \<Longrightarrow> keeps R (throw e)"
  by (auto simp: keeps_def throw_def dest: reflpD)

lemma keeps_pure: "reflp R \<Longrightarrow> keeps R (\<lambda>s. (x s, s))"
  by (auto simp: keeps_def dest: reflpD)

lemma keeps_if:
  "keeps R m \<Longrightarrow> keeps R k \<Longrightarrow> keeps R (\<lambda>s. if c s then m s else k s)"
  by (auto simp: keeps_def)

lemma keeps_arg: "(\<And>x. keeps R (m x)) \<Longrightarrow> keeps R (\<lambda>s. m (g s) s)"
  by (auto simp: keeps_def)

lemma transp_io: "transp io"
  by (rule transpI) (rule io_trans)

lemma reflp_io: "reflp io"
  by (rule reflpI) (rule io_refl)

lemma keeps_io_readByte: "keeps io (readByte a)"
  by (rule keepsI) (rule readByte_io)

lemma keeps_io_writeByte: "keeps io (writeByte a v)"
  by (rule keepsI) (auto simp: writeByte_def io_inflight)

lemma keeps_io_readWord: "keeps io (readWord a)"
  by (rule keepsI)
     (auto simp: readWord_def Let_def split: prod.splits option.splits sum.splits
           dest: sendCommand_io)

lemma keeps_io_writeWord: "keeps io (writeWord a v)"
  by (rule keepsI) (auto simp: writeWord_def split: prod.splits sum.splits dest: sendCommand_io)

lemma keeps_io_samba_write: "keeps io (samba_write a b n)"
  by (rule keepsI) (auto simp: samba_write_def split: prod.splits sum.splits dest: sendCommand_io)

lemma keeps_io_chipErase: "keeps io (chipErase a)"
  by (rule keepsI)
     (auto simp: chipErase_def Let_def io_refl split: prod.splits option.splits if_splits sum.splits
           dest: sendCommand_io)

lemma keeps_io_samba_writeBuffer: "keeps io (samba_writeBuffer a b n)"
proof (rule keepsI)
  fix s :: "'a samba_scheme" and r s'
  assume a: "samba_writeBuffer a b n s = (r, s')"
  show "io s s'"
  proof (cases "\<not> canWriteBuffer s \<or> n > checksumBufferSize")
    case True
    with a have "s' = s" by (auto simp: samba_writeBuffer_def split: if_splits)
    then show ?thesis by (simp add: io_refl)
  next
    case False
    obtain r1 s1 where 1: "sendCommand (CmdY a 0) 3 None 0 s = (r1, s1)"
      by (cases "sendCommand (CmdY a 0) 3 None 0 s")
    obtain r2 s2 where 2: "sendCommand (CmdY b n) 3 None 0 s1 = (r2, s2)"
      by (cases "sendCommand (CmdY b n) 3 None 0 s1")
    from a False 1 2 have "s' = s1 \<or> s' = s2"
      by (auto simp: samba_writeBuffer_def Let_def split: option.splits if_splits sum.splits)
    with sendCommand_io [OF 1] sendCommand_io [OF 2] show ?thesis
      by (auto intro: io_trans)
  qed
qed

lemma keeps_io_read_loop: "keeps io (read_loop addr buffer size' start)"
proof (rule keepsI)
  fix s :: "'a samba_scheme" and r s'
  show "read_loop addr buffer size' start s = (r, s') \<Longrightarrow> io s s'"
  proof (induction addr buffer size' start s arbitrary: r s' rule: read_loop.induct)
    case (1 addr buffer size' start s)
    show ?case
    proof (cases "size' > 0")
      case False
      with "1.prems" have "s' = s" by (subst (asm) read_loop.simps) simp
      then show ?thesis by (simp add: io_refl)
    next
      case True
      define chunk where "chunk = (if readBufferSize s > 0 \<and> size' > readBufferSize s
                      then readBufferSize s else size')"
      obtain result s1 where sc: "sendCommand (CmdR addr chunk) chunk None 0 s = (result, s1)"
        by (cases "sendCommand (CmdR addr chunk) chunk None 0 s")
      have io1: "io s s1" using sendCommand_io [OF sc] by simp
      show ?thesis
      proof (cases result)
        case (Inl e)
        with "1.prems"(1) True sc have "s' = s1"
          by (subst (asm) read_loop.simps) (simp add: chunk_def [symmetric])
        with io1 show ?thesis by simp
      next
        case (Inr ro)
        show ?thesis
        proof (cases ro)
          case None
          with "1.prems"(1) True sc Inr have "s' = s1"
            by (subst (asm) read_loop.simps) (simp add: chunk_def [symmetric])
          with io1 show ?thesis by simp
        next
          case (Some rr)
          obtain buffer' start' where rc: "read_copy 0 chunk rr start buffer = (buffer', start')"
            by (cases "read_copy 0 chunk rr start buffer")
          from "1.prems"(1) True sc Inr Some rc
          have rec: "read_loop (addr + chunk) buffer' (size' - chunk) (start' + chunk) s1 = (r, s')"
            by (subst (asm) read_loop.simps) (simp add: chunk_def [symmetric])
          from "1.IH" [OF True chunk_def sc [symmetric] refl Inr Some rc [symmetric] refl rec] io1
          show ?thesis by (rule io_trans [rotated])
        qed
      qed
    qed
  qed
qed

lemma keeps_io_samba_read: "keeps io (samba_read addr buffer size')"
proof (rule keepsI)
  fix s :: "'a samba_scheme" and r s'
  assume a: "samba_read addr buffer size' s = (r, s')"
  show "io s s'"
  proof (cases "readBufferSize s = 0 \<and> size' > 32 \<and> \<not> truthy (js_and size' (size' - 1))")
    case False
    with a have "read_loop addr buffer size' 0 s = (r, s')" by (auto simp: samba_read_def)
    then show ?thesis by (rule keepsD [OF keeps_io_read_loop])
  next
    case True
    obtain r1 s1 where rb: "readByte addr s = (r1, s1)" by (cases "readByte addr s")
    show ?thesis
    proof (cases r1)
      case (Inl e)
      with a True rb have "s' = s1" by (simp add: samba_read_def)
      with readByte_io [OF rb] show ?thesis by simp
    next
      case (Inr v)
      with a True rb have "read_loop (addr + 1) (u8_set buffer 0 v) (size' - 1) 1 s1 = (r, s')"
        by (simp add: samba_read_def)
      from io_trans [OF readByte_io [OF rb] keepsD [OF keeps_io_read_loop this]]
      show ?thesis .
    qed
  qed
qed

lemma keeps_io_d2x_readReg: "keeps io (d2x_readReg reg)"
  unfolding d2x_readReg_def by (rule keeps_io_readWord)

lemma keeps_io_d2x_writeReg: "keeps io (d2x_writeReg reg v)"
  unfolding d2x_writeReg_def by (rule keeps_io_writeWord)

lemma keeps_io_d2x_waitReady: "keeps io d2x_waitReady"
proof (rule keepsI)
  fix s :: "'a samba_scheme" and r s'
  show "d2x_waitReady s = (r, s') \<Longrightarrow> io s s'"
  proof (induction s arbitrary: r s' rule: d2x_waitReady.induct)
    case (1 s)
    obtain r1 s1 where rd: "d2x_readReg D2x_NVM_REG_INTFLAG s = (r1, s1)"
      by (cases "d2x_readReg D2x_NVM_REG_INTFLAG s")
    have s1: "io s s1" using keepsD [OF keeps_io_d2x_readReg rd] .
    show ?case
    proof (cases r1)
      case (Inl e)
      with "1.prems" rd have "s' = s1" by (subst (asm) d2x_waitReady.simps) simp
      with s1 show ?thesis by simp
    next
      case (Inr v)
      show ?thesis
      proof (cases "js_and v 0x1 = 0")
        case True
        with "1.prems" rd Inr have "d2x_waitReady s1 = (r, s')"
          by (subst (asm) d2x_waitReady.simps) simp
        from "1.IH" [OF rd [symmetric] Inr True this] s1 show ?thesis by (rule io_trans [rotated])
      next
        case False
        with "1.prems" rd Inr have "s' = s1" by (subst (asm) d2x_waitReady.simps) simp
        with s1 show ?thesis by simp
      qed
    qed
  qed
qed

lemma keeps_io_d2x_command: "keeps io (d2x_command cmd)"
  unfolding d2x_command_def
  by (intro keeps_next_do keeps_andThen keeps_if [where c = "\<lambda>s. _"] keeps_io_d2x_waitReady keeps_io_d2x_writeReg
        keeps_io_d2x_readReg keeps_ret keeps_throw transp_io reflp_io)
     (auto intro!: keeps_next_do keeps_io_d2x_writeReg keeps_throw keeps_ret transp_io reflp_io)

subsection \<open>What a driver operation changes\<close>

text \<open>
  Besides the log, the script and the write in flight, the applet and the drivers only ever
  change the flags \<open>installed\<close>, \<open>prepared\<close> and \<open>onBufferA\<close>; \<open>drv\<close> says so. The setters of the
  options and of \<open>eraseAuto\<close> are the only operations outside this relation.
\<close>

definition drv :: "'a flash_scheme \<Rightarrow> 'a flash_scheme \<Rightarrow> bool" where
  "drv s s' = (\<exists>es k f i p a. s' = s\<lparr> wire := wire s @ es, incoming := drop k (incoming s),
                                        inflight := f, installed := i, prepared := p,
                                        onBufferA := a \<rparr>)"

lemma drv_refl: "drv s s"
  unfolding drv_def
  by (rule exI [of _ "[]"], rule exI [of _ 0], rule exI [of _ "inflight s"],
      rule exI [of _ "installed s"], rule exI [of _ "prepared s"], rule exI [of _ "onBufferA s"])
     simp

lemma drv_trans: "drv s s1 \<Longrightarrow> drv s1 s2 \<Longrightarrow> drv s s2"
proof -
  assume "drv s s1" "drv s1 s2"
  then obtain es k f i p a es' k' f' i' p' a' where
    a: "s1 = s\<lparr> wire := wire s @ es, incoming := drop k (incoming s), inflight := f,
                 installed := i, prepared := p, onBufferA := a \<rparr>" and
    b: "s2 = s1\<lparr> wire := wire s1 @ es', incoming := drop k' (incoming s1), inflight := f',
                  installed := i', prepared := p', onBufferA := a' \<rparr>"
    unfolding drv_def by blast
  have "s2 = s\<lparr> wire := wire s @ (es @ es'), incoming := drop (k' + k) (incoming s),
                 inflight := f', installed := i', prepared := p', onBufferA := a' \<rparr>"
    unfolding b a by simp
  then show "drv s s2" unfolding drv_def by blast
qed

lemma io_drv: "io s s' \<Longrightarrow> drv s s'"
proof -
  assume "io s s'"
  then obtain es k f where
    "s' = s\<lparr> wire := wire s @ es, incoming := drop k (incoming s), inflight := f \<rparr>"
    unfolding io_def by blast
  then have "s' = s\<lparr> wire := wire s @ es, incoming := drop k (incoming s), inflight := f,
                     installed := installed s, prepared := prepared s, onBufferA := onBufferA s \<rparr>"
    by simp
  then show ?thesis unfolding drv_def by blast
qed

lemma drv_flags:
  assumes "drv s s1"
  shows "drv s (s1\<lparr> installed := b \<rparr>)" "drv s (s1\<lparr> prepared := b \<rparr>)"
    "drv s (s1\<lparr> onBufferA := b, wire := wire s1 @ es' \<rparr>)"
proof -
  from assms obtain es k f i p a where
    a: "s1 = s\<lparr> wire := wire s @ es, incoming := drop k (incoming s), inflight := f,
                 installed := i, prepared := p, onBufferA := a \<rparr>"
    unfolding drv_def by blast
  have "s1\<lparr> installed := b \<rparr> = s\<lparr> wire := wire s @ es, incoming := drop k (incoming s),
                 inflight := f, installed := b, prepared := p, onBufferA := a \<rparr>"
    unfolding a by simp
  then show "drv s (s1\<lparr> installed := b \<rparr>)" unfolding drv_def by blast
  have "s1\<lparr> prepared := b \<rparr> = s\<lparr> wire := wire s @ es, incoming := drop k (incoming s),
                 inflight := f, installed := i, prepared := b, onBufferA := a \<rparr>"
    unfolding a by simp
  then show "drv s (s1\<lparr> prepared := b \<rparr>)" unfolding drv_def by blast
  have "s1\<lparr> onBufferA := b, wire := wire s1 @ es' \<rparr> =
        s\<lparr> wire := wire s @ (es @ es'), incoming := drop k (incoming s),
                 inflight := f, installed := i, prepared := p, onBufferA := b \<rparr>"
    unfolding a by simp
  then show "drv s (s1\<lparr> onBufferA := b, wire := wire s1 @ es' \<rparr>)" unfolding drv_def by blast
qed

lemma transp_drv: "transp drv"
  by (rule transpI) (rule drv_trans)

lemma reflp_drv: "reflp drv"
  by (rule reflpI) (rule drv_refl)

lemma keeps_mono: "(\<And>s s'. R s s' \<Longrightarrow> Q s s') \<Longrightarrow> keeps R m \<Longrightarrow> keeps Q m"
  by (auto simp: keeps_def)

lemma keeps_io_drv: "keeps io m \<Longrightarrow> keeps drv m"
  by (rule keeps_mono [of io]) (rule io_drv)

lemma keeps_drv_checkInstall: "keeps drv checkInstall"
proof (rule keepsI)
  fix s :: "'a flash_scheme" and r s'
  assume a: "checkInstall s = (r, s')"
  show "drv s s'"
  proof (cases "installed s")
    case True
    with a show ?thesis by (simp add: checkInstall_def drv_refl)
  next
    case False
    with a have "next_do (samba_write (applet_addr s) (applet_code s) (applet_size s))
                (modify (\<lambda>s. s\<lparr> installed := True \<rparr>)) s = (r, s')"
      by (simp add: checkInstall_def)
    then show ?thesis
    proof (cases rule: next_do_cases)
      case (fails e)
      then show ?thesis using keepsD [OF keeps_io_samba_write] io_drv by blast
    next
      case (goes s1)
      from keepsD [OF keeps_io_samba_write goes(1)] have "drv s s1" by (rule io_drv)
      with goes(2) show ?thesis by (auto simp: modify_def drv_flags)
    qed
  qed
qed

lemma keeps_drv_writeWord_at: "keeps drv (\<lambda>s. writeWord (g s) v s)"
  by (rule keeps_arg [of drv "\<lambda>x. writeWord x v" g]) (rule keeps_io_drv, rule keeps_io_writeWord)

lemma keeps_drv_setStack: "keeps drv (setStack stack)"
  unfolding setStack_def
  by (intro keeps_next_do keeps_drv_checkInstall keeps_drv_writeWord_at transp_drv)

lemma keeps_drv_setDstAddr: "keeps drv (setDstAddr a)"
  unfolding setDstAddr_def
  by (intro keeps_next_do keeps_drv_checkInstall keeps_drv_writeWord_at transp_drv)

lemma keeps_drv_setSrcAddr: "keeps drv (setSrcAddr a)"
  unfolding setSrcAddr_def
  by (intro keeps_next_do keeps_drv_checkInstall keeps_drv_writeWord_at transp_drv)

lemma keeps_drv_setWords: "keeps drv (setWords a)"
  unfolding setWords_def
  by (intro keeps_next_do keeps_drv_checkInstall keeps_drv_writeWord_at transp_drv)

lemma keeps_drv_runv: "keeps drv runv"
proof -
  have 1: "keeps drv (\<lambda>s :: 'a flash_scheme. writeWord (applet_reset s) (applet_start s + 1) s)"
    by (rule keepsI) (auto dest: keepsD [OF keeps_io_writeWord] io_drv)
  have 2: "keeps drv (\<lambda>s :: 'a flash_scheme. go (applet_stack s) s)"
  proof (rule keepsI)
    fix s :: "'a flash_scheme" and r s'
    assume "go (applet_stack s) s = (r, s')"
    then have "s' = s\<lparr> wire := wire s @ [Sent (CmdG (applet_stack s)) None] \<rparr> \<or>
               s' = s\<lparr> inflight := Some (CmdG (applet_stack s)) \<rparr>"
      by (auto simp: go_def sendCommand_def Let_def split: option.splits)
    then have "s' = s\<lparr> wire := wire s @ [Sent (CmdG (applet_stack s)) None],
                       incoming := drop 0 (incoming s), inflight := inflight s,
                       installed := installed s, prepared := prepared s,
                       onBufferA := onBufferA s \<rparr> \<or>
               s' = s\<lparr> wire := wire s @ [], incoming := drop 0 (incoming s),
                       inflight := Some (CmdG (applet_stack s)),
                       installed := installed s, prepared := prepared s,
                       onBufferA := onBufferA s \<rparr>"
      by simp
    then show "drv s s'" unfolding drv_def by blast
  qed
  show ?thesis unfolding runv_def
    by (intro keeps_next_do keeps_drv_checkInstall 1 2 transp_drv)
qed

lemma keeps_drv_prepareApplet: "keeps drv prepareApplet"
proof (rule keepsI)
  fix s :: "'a flash_scheme" and r s'
  assume a: "prepareApplet s = (r, s')"
  have m: "keeps drv (modify (\<lambda>s :: 'a flash_scheme. s\<lparr> prepared := True \<rparr>))"
    by (rule keepsI) (auto simp: modify_def drv_flags drv_refl)
  have "keeps drv (next_do (setWords (flash_size s / 4))
          (next_do (setStack (flash_stack s)) (modify (\<lambda>s :: 'a flash_scheme. s\<lparr> prepared := True \<rparr>))))"
    by (intro keeps_next_do keeps_drv_setWords keeps_drv_setStack m transp_drv)
  with a show "drv s s'"
    by (cases "prepared s") (auto simp: prepareApplet_def drv_refl dest: keepsD)
qed

lemma keeps_drv_switchBuffer: "keeps drv switchBuffer"
  by (rule keepsI) (auto simp: switchBuffer_def modify_def drv_flags drv_refl)

lemma keeps_drv_setSrcAddr_active: "keeps drv (\<lambda>s. setSrcAddr (activeBuffer s) s)"
  by (rule keeps_arg [of drv setSrcAddr activeBuffer]) (rule keeps_drv_setSrcAddr)

lemma keeps_drv_loadBuffer: "keeps drv (loadBuffer data offset n)"
  by (rule keepsI) (auto simp: loadBuffer_def Let_def dest: keepsD [OF keeps_io_samba_write] io_drv)

lemma keeps_drv_loadBuffer_size: "keeps drv (\<lambda>s. loadBuffer data offset (flash_size s) s)"
  by (rule keeps_arg [of drv "loadBuffer data offset" flash_size]) (rule keeps_drv_loadBuffer)

lemma keeps_drv_flash_writeBuffer: "keeps drv (flash_writeBuffer dst n)"
  by (rule keepsI)
     (auto simp: flash_writeBuffer_def dest: keepsD [OF keeps_io_samba_writeBuffer] io_drv)

lemma keeps_drv_getLockRegions_loop: "keeps drv (getLockRegions_loop region lockBits addr rs)"
proof (rule keepsI)
  fix s :: "'a flash_scheme" and r s'
  show "getLockRegions_loop region lockBits addr rs s = (r, s') \<Longrightarrow> drv s s'"
  proof (induction region lockBits addr rs s arbitrary: r s' rule: getLockRegions_loop.induct)
    case (1 region lockBits addr rs s)
    show ?case
    proof (cases "region < flash_lockRegions s")
      case False
      with "1.prems" have "s' = s" by (subst (asm) getLockRegions_loop.simps) simp
      then show ?thesis by (simp add: drv_refl)
    next
      case less: True
      show ?thesis
      proof (cases "js_mod region 8 = 0")
        case False
        with "1.prems" less have
          "getLockRegions_loop (region + 1) lockBits addr
             (rs @ [js_and lockBits (js_shl 1 (js_mod region 8)) = 0]) s = (r, s')"
          by (subst (asm) getLockRegions_loop.simps) simp
        from "1.IH"(2) [OF less False this] show ?thesis .
      next
        case True
        obtain r1 s1 where rb: "readByte addr s = (r1, s1)" by (cases "readByte addr s")
        have s1: "drv s s1" using readByte_io [OF rb] by (rule io_drv)
        show ?thesis
        proof (cases r1)
          case (Inl e)
          with "1.prems" less True rb have "s' = s1"
            by (subst (asm) getLockRegions_loop.simps) simp
          with s1 show ?thesis by simp
        next
          case (Inr v)
          with "1.prems" less True rb have
            "getLockRegions_loop (region + 1) v (addr + 1)
               (rs @ [js_and v (js_shl 1 (js_mod region 8)) = 0]) s1 = (r, s')"
            by (subst (asm) getLockRegions_loop.simps) simp
          from "1.IH"(1) [OF less True rb [symmetric] Inr this] s1
          show ?thesis by (rule drv_trans [rotated])
        qed
      qed
    qed
  qed
qed

text \<open>Consuming scripted input.\<close>

definition no_input_gain :: "'a samba_scheme \<Rightarrow> 'a samba_scheme \<Rightarrow> bool" where
  "no_input_gain s s' = (length (incoming s') \<le> length (incoming s))"

definition consumes :: "('a samba_scheme, 'b) action \<Rightarrow> bool" where
  "consumes m = (\<forall>s v s'. m s = (Inr v, s') \<longrightarrow> length (incoming s') < length (incoming s))"

lemma io_no_input_gain: "io s s' \<Longrightarrow> no_input_gain s s'"
  unfolding io_def no_input_gain_def by auto

lemma drv_no_input_gain: "drv s s' \<Longrightarrow> no_input_gain s s'"
  unfolding drv_def no_input_gain_def by auto

lemma consumes_next_do1:
  assumes "consumes m" "keeps no_input_gain k"
  shows "consumes (next_do m k)"
  unfolding consumes_def
proof (intro allI impI)
  fix s v s'
  assume "next_do m k s = (Inr v, s')"
  then obtain s1 where 1: "m s = (Inr (), s1)" and 2: "k s1 = (Inr v, s')"
    by (cases rule: next_do_cases) auto
  from assms(1) 1 have "length (incoming s1) < length (incoming s)" by (auto simp: consumes_def)
  moreover from keepsD [OF assms(2) 2] have "length (incoming s') \<le> length (incoming s1)"
    by (simp add: no_input_gain_def)
  ultimately show "length (incoming s') < length (incoming s)" by simp
qed

lemma consumes_next_do2:
  assumes "keeps no_input_gain m" "consumes k"
  shows "consumes (next_do m k)"
  unfolding consumes_def
proof (intro allI impI)
  fix s v s'
  assume "next_do m k s = (Inr v, s')"
  then obtain s1 where 1: "m s = (Inr (), s1)" and 2: "k s1 = (Inr v, s')"
    by (cases rule: next_do_cases) auto
  from keepsD [OF assms(1) 1] have "length (incoming s1) \<le> length (incoming s)"
    by (simp add: no_input_gain_def)
  moreover from assms(2) 2 have "length (incoming s') < length (incoming s1)"
    by (auto simp: consumes_def)
  ultimately show "length (incoming s') < length (incoming s)" by simp
qed

lemma consumes_d2x_waitReady: "consumes d2x_waitReady"
  unfolding consumes_def
proof (intro allI impI)
  fix s :: "'a samba_scheme" and v s'
  assume a: "d2x_waitReady s = (Inr v, s')"
  obtain r1 s1 where rd: "d2x_readReg D2x_NVM_REG_INTFLAG s = (r1, s1)"
    by (cases "d2x_readReg D2x_NVM_REG_INTFLAG s")
  from a rd obtain x where r1: "r1 = Inr x"
    by (subst (asm) d2x_waitReady.simps) (cases r1; simp)
  from rd r1 have lt: "length (incoming s1) < length (incoming s)"
    by (auto simp: d2x_readReg_def dest: readWord_incoming)
  from a rd r1 have "s' = s1 \<or> d2x_waitReady s1 = (Inr v, s')"
    by (subst (asm) d2x_waitReady.simps) (simp split: if_splits)
  then have "length (incoming s') \<le> length (incoming s1)"
    using keepsD [OF keeps_io_d2x_waitReady, of s1 "Inr v" s'] io_no_input_gain [of s1 s']
    by (auto simp: no_input_gain_def)
  with lt show "length (incoming s') < length (incoming s)" by simp
qed

lemma consumes_d2x_command: "consumes (d2x_command cmd)"
  unfolding d2x_command_def
  apply (rule consumes_next_do1 [OF consumes_d2x_waitReady])
  apply (rule keeps_mono [of io])
   apply (erule io_no_input_gain)
  apply (intro keeps_next_do keeps_andThen keeps_io_d2x_waitReady keeps_io_d2x_writeReg
        keeps_io_d2x_readReg transp_io)
  apply (auto intro!: keeps_next_do keeps_io_d2x_writeReg keeps_throw keeps_ret transp_io reflp_io)
  done

lemma consumes_d2x_writeRow_page: "consumes (d2x_writeRow_page userRow offset)"
  unfolding d2x_writeRow_page_def
  apply (rule consumes_next_do2)
   apply (rule keeps_mono [of drv])
    apply (erule drv_no_input_gain)
   apply (rule keeps_drv_loadBuffer_size)
  apply (rule consumes_next_do1 [OF consumes_d2x_command])
  apply (rule keeps_mono [of drv])
   apply (erule drv_no_input_gain)
  apply (intro keeps_next_do keeps_drv_prepareApplet keeps_drv_setDstAddr
      keeps_drv_setSrcAddr_active keeps_drv_switchBuffer keeps_drv_runv transp_drv
      keeps_io_drv keeps_io_d2x_waitReady keeps_io_d2x_writeReg keeps_io_d2x_command)
  done

function d2x_writeRow_loop :: "byte list \<Rightarrow> number \<Rightarrow> ('a flash_scheme, unit) action" where
  "d2x_writeRow_loop userRow offset s =
     (if offset < D2x_NVM_UR_SIZE s then
        (case d2x_writeRow_page userRow offset s of
           (Inl e, s') \<Rightarrow> (Inl e, s')
         | (Inr u, s') \<Rightarrow> d2x_writeRow_loop userRow (offset + flash_size s') s')
      else (Inr (), s))"
  by pat_completeness auto
termination
proof (relation "measure (\<lambda>(userRow, offset, s). length (incoming s))")
  show "wf (measure (\<lambda>(userRow, offset, s). length (incoming s)))" by simp
next
  fix userRow :: "byte list" and offset :: number and s s' :: "'a flash_scheme" and x u
  assume "(x, s') = d2x_writeRow_page userRow offset s" "x = Inr u"
  then have "d2x_writeRow_page userRow offset s = (Inr u, s')" by simp
  with consumes_d2x_writeRow_page [of userRow offset]
  show "((userRow, offset + flash_size s', s'), userRow, offset, s)
          \<in> measure (\<lambda>(userRow, offset, s). length (incoming s))"
    by (auto simp: consumes_def)
qed

declare d2x_writeRow_loop.simps [simp del]

definition d2x_options_security :: "('a flash_scheme, unit) action" where
  "d2x_options_security s =
     (if isDirty (security s) \<and> opt_get (security s) = True then
        andThen d2x_getSecurity
          (\<lambda>current s. if opt_get (security s) \<noteq> current
                        then d2x_command D2x_NVM_CMD_SSB s else (Inr (), s)) s
      else (Inr (), s))"

text \<open>
  The source guards the erase-and-write block with \<open>if (userRow)\<close>; \<open>userRow\<close> is an
  array object, which is always truthy, so the block always runs.
\<close>

definition d2x_writeOptions :: "('a flash_scheme, unit) action" where
  "d2x_writeOptions s =
     (let userRow = replicate (nat (trunc (D2x_NVM_UR_SIZE s))) 0 in
      andThen (d2x_options_bor userRow)
        (\<lambda>userRow. andThen (d2x_options_bod userRow)
           (\<lambda>userRow. andThen (d2x_options_regions userRow)
              (\<lambda>userRow.
                 next_do d2x_manualWrite
                   (next_do (d2x_writeReg D2x_NVM_REG_ADDR (D2x_NVM_UR_ADDR / 2))
                      (next_do (d2x_command D2x_NVM_CMD_EAR)
                         (next_do (d2x_writeRow_loop userRow 0)
                            d2x_options_security)))))) s)"

definition d2x_writePage :: "number \<Rightarrow> ('a flash_scheme, unit) action" where
  "d2x_writePage page s =
     (if page \<ge> flash_pages s then (Inl FlashPageError, s)
      else
        next_do d2x_manualWrite
          (next_do (\<lambda>s. if eraseAuto s \<and> js_mod page D2x_ERASE_ROW_PAGES = 0
                         then d2x_erase (page * flash_size s) (D2x_ERASE_ROW_PAGES * flash_size s) s
                         else (Inr (), s))
             (next_do (d2x_command D2x_NVM_CMD_PBC)
                (\<lambda>s. let addr = flash_addr s + (page * flash_size s) in
                   next_do prepareApplet
                     (next_do (setDstAddr addr)
                        (next_do (\<lambda>s. setSrcAddr (activeBuffer s) s)
                           (next_do switchBuffer
                              (next_do d2x_waitReady
                                 (next_do runv
                                    (next_do (d2x_writeReg D2x_NVM_REG_ADDR (addr / 2))
                                       (d2x_command D2x_NVM_CMD_WP))))))) s))) s)"

definition d2x_readPage :: "number \<Rightarrow> byte list \<Rightarrow> ('a flash_scheme, byte list) action" where
  "d2x_readPage page buf s =
     (if page \<ge> flash_pages s then (Inl FlashPageError, s)
      else samba_read (flash_addr s + (page * flash_size s)) buf (flash_size s) s)"

definition d2x_writeBuffer :: "number \<Rightarrow> number \<Rightarrow> ('a flash_scheme, unit) action" where
  "d2x_writeBuffer dst_addr size' =
     next_do (\<lambda>s. if eraseAuto s then d2x_erase dst_addr size' s else (Inr (), s))
       (flash_writeBuffer dst_addr size')"

section \<open>The D5x driver (D5xNvmFlash.ts)\<close>

definition D5x_NVM_REG_CTRLA :: number where "D5x_NVM_REG_CTRLA = 0x00"
definition D5x_NVM_REG_CTRLB :: number where "D5x_NVM_REG_CTRLB = 0x04"
definition D5x_NVM_REG_INTFLAG :: number where "D5x_NVM_REG_INTFLAG = 0x10"
definition D5x_NVM_REG_STATUS :: number where "D5x_NVM_REG_STATUS = 0x12"
definition D5x_NVM_REG_ADDR :: number where "D5x_NVM_REG_ADDR = 0x14"
definition D5x_NVM_CMD_EP :: number where "D5x_NVM_CMD_EP = 0x00"
definition D5x_NVM_CMD_EB :: number where "D5x_NVM_CMD_EB = 0x01"
definition D5x_NVM_CMD_WP :: number where "D5x_NVM_CMD_WP = 0x03"
definition D5x_NVM_CMD_WQW :: number where "D5x_NVM_CMD_WQW = 0x04"
definition D5x_NVM_CMD_SSB :: number where "D5x_NVM_CMD_SSB = 0x16"
definition D5x_NVM_CMD_PBC :: number where "D5x_NVM_CMD_PBC = 0x15"
definition D5x_ERASE_BLOCK_PAGES :: number where "D5x_ERASE_BLOCK_PAGES = 16"
definition D5x_NVM_UP_ADDR :: number where "D5x_NVM_UP_ADDR = 0x804000"
definition D5x_NVM_UP_BOD33_DISABLE_OFFSET :: number where "D5x_NVM_UP_BOD33_DISABLE_OFFSET = 0x0"
definition D5x_NVM_UP_BOD33_DISABLE_MASK :: number where "D5x_NVM_UP_BOD33_DISABLE_MASK = 0x1"
definition D5x_NVM_UP_BOD33_RESET_OFFSET :: number where "D5x_NVM_UP_BOD33_RESET_OFFSET = 0x1"
definition D5x_NVM_UP_BOD33_RESET_MASK :: number where "D5x_NVM_UP_BOD33_RESET_MASK = 0x2"
definition D5x_NVM_UP_NVM_LOCK_OFFSET :: number where "D5x_NVM_UP_NVM_LOCK_OFFSET = 0x8"

definition D5xNvmFlash_new ::
  "samba \<Rightarrow> number \<Rightarrow> number \<Rightarrow> number \<Rightarrow> number \<Rightarrow> error + flash" where
  "D5xNvmFlash_new sb pages size' user stack = Flash_new sb 0 pages size' 1 32 user stack"

definition D5x_NVM_UP_SIZE :: "'a flash_scheme \<Rightarrow> number" where
  "D5x_NVM_UP_SIZE s = flash_size s"

definition d5x_readRegU16 :: "number \<Rightarrow> ('a samba_scheme, number) action" where
  "d5x_readRegU16 reg =
     andThen (readByte (NVM_REG_BASE + reg))
       (\<lambda>lo. andThen (readByte (NVM_REG_BASE + reg + 1))
                (\<lambda>hi. ret (js_or lo (js_shl hi 8))))"

definition d5x_writeRegU16 :: "number \<Rightarrow> number \<Rightarrow> ('a samba_scheme, unit) action" where
  "d5x_writeRegU16 reg v =
     next_do (writeByte (NVM_REG_BASE + reg) (js_and v 0xff))
       (writeByte (NVM_REG_BASE + reg) (js_and (js_shr v 8) 0xff))"

definition d5x_readRegU32 :: "number \<Rightarrow> ('a samba_scheme, number) action" where
  "d5x_readRegU32 reg = readWord (NVM_REG_BASE + reg)"

definition d5x_writeRegU32 :: "number \<Rightarrow> number \<Rightarrow> ('a samba_scheme, unit) action" where
  "d5x_writeRegU32 reg v = writeWord (NVM_REG_BASE + reg) v"

lemma keeps_io_d5x_readRegU16: "keeps io (d5x_readRegU16 reg)"
  unfolding d5x_readRegU16_def
  by (intro keeps_andThen keeps_io_readByte keeps_ret transp_io reflp_io)

lemma keeps_io_d5x_writeRegU16: "keeps io (d5x_writeRegU16 reg v)"
  unfolding d5x_writeRegU16_def
  by (intro keeps_next_do keeps_io_writeByte transp_io)

lemma keeps_io_d5x_writeRegU32: "keeps io (d5x_writeRegU32 reg v)"
  unfolding d5x_writeRegU32_def by (rule keeps_io_writeWord)

lemma d5x_readRegU16_incoming:
  assumes "d5x_readRegU16 reg s = (Inr v, s')"
  shows "length (incoming s') < length (incoming s)"
proof -
  from assms obtain lo s1 where 1: "readByte (NVM_REG_BASE + reg) s = (Inr lo, s1)"
    and 2: "andThen (readByte (NVM_REG_BASE + reg + 1)) (\<lambda>hi. ret (js_or lo (js_shl hi 8))) s1
              = (Inr v, s')"
    unfolding d5x_readRegU16_def by (cases rule: andThen_cases) auto
  have "keeps io (andThen (readByte (NVM_REG_BASE + reg + 1)) (\<lambda>hi. ret (js_or lo (js_shl hi 8))))"
    by (intro keeps_andThen keeps_io_readByte keeps_ret transp_io reflp_io)
  from io_no_input_gain [OF keepsD [OF this 2]] readByte_incoming [OF 1]
  show ?thesis by (simp add: no_input_gain_def)
qed

function d5x_waitReady :: "('a samba_scheme, unit) action" where
  "d5x_waitReady s =
     (case d5x_readRegU16 D5x_NVM_REG_STATUS s of
        (Inl e, s') \<Rightarrow> (Inl e, s')
      | (Inr v, s') \<Rightarrow> if js_and v 0x1 = 0 then d5x_waitReady s' else (Inr (), s'))"
  by pat_completeness auto
termination
proof (relation "measure (\<lambda>s. length (incoming s))")
  show "wf (measure (\<lambda>s. length (incoming s)))" by simp
next
  fix s s' :: "'a samba_scheme" and x v
  assume "(x, s') = d5x_readRegU16 D5x_NVM_REG_STATUS s" "x = Inr v"
  then have "d5x_readRegU16 D5x_NVM_REG_STATUS s = (Inr v, s')" by simp
  from d5x_readRegU16_incoming [OF this]
  show "(s', s) \<in> measure (\<lambda>s. length (incoming s))" by simp
qed

declare d5x_waitReady.simps [simp del]

definition d5x_command :: "number \<Rightarrow> ('a samba_scheme, unit) action" where
  "d5x_command cmd =
     next_do d5x_waitReady
       (next_do (d5x_writeRegU32 D5x_NVM_REG_CTRLB (js_or CMDEX_KEY cmd))
          (next_do d5x_waitReady
             (andThen (d5x_readRegU16 D5x_NVM_REG_INTFLAG)
                (\<lambda>flags. if truthy (js_and flags 0xce)
                   then next_do (d5x_writeRegU16 D5x_NVM_REG_INTFLAG 0xce) (throw FlashCmdError)
                   else ret ()))))"

function d5x_erase_loop :: "number \<Rightarrow> number \<Rightarrow> number \<Rightarrow> ('a flash_scheme, unit) action" where
  "d5x_erase_loop eraseNum eraseEnd eraseSize s =
     (if eraseNum < eraseEnd then
        next_do (d5x_writeRegU32 D5x_NVM_REG_ADDR (eraseNum * eraseSize))
          (next_do (d5x_command D5x_NVM_CMD_EB)
             (\<lambda>s'. d5x_erase_loop (eraseNum + 1) eraseEnd eraseSize s')) s
      else (Inr (), s))"
  by pat_completeness auto
termination
  by (relation "measure (\<lambda>(eraseNum, eraseEnd, eraseSize, s). nat \<lceil>eraseEnd - eraseNum\<rceil>)")
     (auto simp: loop_ceiling_step)

declare d5x_erase_loop.simps [simp del]

definition d5x_erase :: "number \<Rightarrow> number \<Rightarrow> ('a flash_scheme, unit) action" where
  "d5x_erase offset size' s =
     (let eraseSize = flash_size s * D5x_ERASE_BLOCK_PAGES in
      if truthy (js_mod offset eraseSize) then (Inl FlashEraseError, s)
      else if offset + size' > totalSize s then (Inl FlashEraseError, s)
      else
        (let eraseEnd = (offset + size' + eraseSize - 1) / eraseSize
         in d5x_erase_loop (offset / eraseSize) eraseEnd eraseSize s))"

definition d5x_eraseAll :: "number \<Rightarrow> ('a flash_scheme, unit) action" where
  "d5x_eraseAll offset s =
     (if canChipErase s then chipErase offset s
      else d5x_erase offset (totalSize s - offset) s)"

definition d5x_getLockRegions :: "('a flash_scheme, bool list) action" where
  "d5x_getLockRegions =
     getLockRegions_loop 0 0 (D5x_NVM_UP_ADDR + D5x_NVM_UP_NVM_LOCK_OFFSET) []"

definition d5x_getSecurity :: "('a samba_scheme, bool) action" where
  "d5x_getSecurity = ret False"

definition d5x_getBod :: "('a samba_scheme, bool) action" where
  "d5x_getBod =
     andThen (readByte (D5x_NVM_UP_ADDR + D5x_NVM_UP_BOD33_DISABLE_OFFSET))
       (\<lambda>byte. ret (js_and byte D5x_NVM_UP_BOD33_DISABLE_MASK = 0))"

definition d5x_getBor :: "('a samba_scheme, bool) action" where
  "d5x_getBor =
     andThen (readByte (D5x_NVM_UP_ADDR + D5x_NVM_UP_BOD33_RESET_OFFSET))
       (\<lambda>byte. ret (js_and byte D5x_NVM_UP_BOD33_RESET_MASK \<noteq> 0))"

definition d5x_readUserPage :: "byte list \<Rightarrow> ('a flash_scheme, byte list) action" where
  "d5x_readUserPage userRow s =
     (if of_nat (length userRow) \<noteq> D5x_NVM_UP_SIZE s then (Inl InvalidBufferSize, s)
      else samba_read D5x_NVM_UP_ADDR userRow (D5x_NVM_UP_SIZE s) s)"

definition d5x_options_bor :: "byte list \<Rightarrow> ('a flash_scheme, byte list) action" where
  "d5x_options_bor userPage s =
     (if canBor \<and> isDirty (bor s) then
        andThen d5x_getBor
          (\<lambda>current s.
             if opt_get (bor s) \<noteq> current then
               andThen (d5x_readUserPage userPage)
                 (\<lambda>page s.
                    (Inr (if opt_get (bor s)
                          then u8_set page D5x_NVM_UP_BOD33_RESET_OFFSET
                                 (js_or (u8_get page D5x_NVM_UP_BOD33_RESET_OFFSET)
                                        D5x_NVM_UP_BOD33_RESET_MASK)
                          else u8_set page D5x_NVM_UP_BOD33_RESET_OFFSET
                                 (js_and (u8_get page D5x_NVM_UP_BOD33_RESET_OFFSET)
                                         (js_not D5x_NVM_UP_BOD33_RESET_MASK))), s)) s
             else (Inr userPage, s)) s
      else (Inr userPage, s))"

definition d5x_options_bod :: "byte list \<Rightarrow> ('a flash_scheme, byte list) action" where
  "d5x_options_bod userPage s =
     (if canBod \<and> isDirty (bod s) then
        andThen d5x_getBod
          (\<lambda>current s.
             if opt_get (bod s) \<noteq> current then
               andThen (d5x_readUserPage userPage)
                 (\<lambda>page s.
                    (Inr (if opt_get (bod s)
                          then u8_set page D5x_NVM_UP_BOD33_DISABLE_OFFSET
                                 (js_and (u8_get page D5x_NVM_UP_BOD33_DISABLE_OFFSET)
                                         (js_not D5x_NVM_UP_BOD33_DISABLE_MASK))
                          else u8_set page D5x_NVM_UP_BOD33_DISABLE_OFFSET
                                 (js_or (u8_get page D5x_NVM_UP_BOD33_DISABLE_OFFSET)
                                        D5x_NVM_UP_BOD33_DISABLE_MASK)), s)) s
             else (Inr userPage, s)) s
      else (Inr userPage, s))"

definition d5x_options_regions :: "byte list \<Rightarrow> ('a flash_scheme, byte list) action" where
  "d5x_options_regions userPage s =
     (if isDirty (regions s) then
        andThen d5x_getLockRegions
          (\<lambda>current s.
             if \<not> regions_equal (opt_get (regions s)) current then
               andThen (d5x_readUserPage userPage)
                 (\<lambda>page s.
                    (Inr (lock_loop (opt_get (regions s)) D5x_NVM_UP_NVM_LOCK_OFFSET 0 page), s)) s
             else (Inr userPage, s)) s
      else (Inr userPage, s))"

definition d5x_manualWrite :: "('a samba_scheme, unit) action" where
  "d5x_manualWrite =
     andThen (d5x_readRegU16 D5x_NVM_REG_CTRLA)
       (\<lambda>v. d5x_writeRegU16 D5x_NVM_REG_CTRLA (js_and (js_or v (js_shl 0x3 14)) 0xffcf))"

definition d5x_writePage_quad :: "byte list \<Rightarrow> number \<Rightarrow> ('a flash_scheme, unit) action" where
  "d5x_writePage_quad userPage offset =
     next_do (loadBuffer userPage offset 16)
       (next_do (d5x_command D5x_NVM_CMD_PBC)
          (next_do prepareApplet
             (next_do (setDstAddr (D5x_NVM_UP_ADDR + offset))
                (next_do (\<lambda>s. setSrcAddr (activeBuffer s) s)
                   (next_do (setWords 4)
                      (next_do switchBuffer
                         (next_do d5x_waitReady
                            (next_do runv
                               (next_do (d5x_writeRegU32 D5x_NVM_REG_ADDR (D5x_NVM_UP_ADDR + offset))
                                  (d5x_command D5x_NVM_CMD_WQW))))))))))"

lemma keeps_io_d5x_waitReady: "keeps io d5x_waitReady"
proof (rule keepsI)
  fix s :: "'a samba_scheme" and r s'
  show "d5x_waitReady s = (r, s') \<Longrightarrow> io s s'"
  proof (induction s arbitrary: r s' rule: d5x_waitReady.induct)
    case (1 s)
    obtain r1 s1 where rd: "d5x_readRegU16 D5x_NVM_REG_STATUS s = (r1, s1)"
      by (cases "d5x_readRegU16 D5x_NVM_REG_STATUS s")
    have s1: "io s s1" using keepsD [OF keeps_io_d5x_readRegU16 rd] .
    show ?case
    proof (cases r1)
      case (Inl e)
      with "1.prems" rd have "s' = s1" by (subst (asm) d5x_waitReady.simps) simp
      with s1 show ?thesis by simp
    next
      case (Inr v)
      show ?thesis
      proof (cases "js_and v 0x1 = 0")
        case True
        with "1.prems" rd Inr have "d5x_waitReady s1 = (r, s')"
          by (subst (asm) d5x_waitReady.simps) simp
        from "1.IH" [OF rd [symmetric] Inr True this] s1 show ?thesis by (rule io_trans [rotated])
      next
        case False
        with "1.prems" rd Inr have "s' = s1" by (subst (asm) d5x_waitReady.simps) simp
        with s1 show ?thesis by simp
      qed
    qed
  qed
qed

lemma keeps_io_d5x_command: "keeps io (d5x_command cmd)"
  unfolding d5x_command_def
  by (intro keeps_next_do keeps_andThen keeps_io_d5x_waitReady keeps_io_d5x_writeRegU32
        keeps_io_d5x_readRegU16 transp_io)
     (auto intro!: keeps_next_do keeps_io_d5x_writeRegU16 keeps_throw keeps_ret transp_io reflp_io)

lemma consumes_d5x_waitReady: "consumes d5x_waitReady"
  unfolding consumes_def
proof (intro allI impI)
  fix s :: "'a samba_scheme" and v s'
  assume a: "d5x_waitReady s = (Inr v, s')"
  obtain r1 s1 where rd: "d5x_readRegU16 D5x_NVM_REG_STATUS s = (r1, s1)"
    by (cases "d5x_readRegU16 D5x_NVM_REG_STATUS s")
  from a rd obtain x where r1: "r1 = Inr x"
    by (subst (asm) d5x_waitReady.simps) (cases r1; simp)
  from rd r1 have lt: "length (incoming s1) < length (incoming s)"
    by (auto dest: d5x_readRegU16_incoming)
  from a rd r1 have "s' = s1 \<or> d5x_waitReady s1 = (Inr v, s')"
    by (subst (asm) d5x_waitReady.simps) (simp split: if_splits)
  then have "length (incoming s') \<le> length (incoming s1)"
    using keepsD [OF keeps_io_d5x_waitReady, of s1 "Inr v" s'] io_no_input_gain [of s1 s']
    by (auto simp: no_input_gain_def)
  with lt show "length (incoming s') < length (incoming s)" by simp
qed

lemma consumes_d5x_command: "consumes (d5x_command cmd)"
  unfolding d5x_command_def
  apply (rule consumes_next_do1 [OF consumes_d5x_waitReady])
  apply (rule keeps_mono [of io])
   apply (erule io_no_input_gain)
  apply (intro keeps_next_do keeps_andThen keeps_io_d5x_waitReady keeps_io_d5x_writeRegU32
        keeps_io_d5x_readRegU16 transp_io)
  apply (auto intro!: keeps_next_do keeps_io_d5x_writeRegU16 keeps_throw keeps_ret transp_io reflp_io)
  done

lemma consumes_d5x_writePage_quad: "consumes (d5x_writePage_quad userPage offset)"
  unfolding d5x_writePage_quad_def
  apply (rule consumes_next_do2)
   apply (rule keeps_mono [of drv])
    apply (erule drv_no_input_gain)
   apply (rule keeps_drv_loadBuffer)
  apply (rule consumes_next_do1 [OF consumes_d5x_command])
  apply (rule keeps_mono [of drv])
   apply (erule drv_no_input_gain)
  apply (intro keeps_next_do keeps_drv_prepareApplet keeps_drv_setDstAddr keeps_drv_setWords
      keeps_drv_setSrcAddr_active keeps_drv_switchBuffer keeps_drv_runv transp_drv
      keeps_io_drv keeps_io_d5x_waitReady keeps_io_d5x_writeRegU32 keeps_io_d5x_command)
  done

function d5x_writePage_loop :: "byte list \<Rightarrow> number \<Rightarrow> ('a flash_scheme, unit) action" where
  "d5x_writePage_loop userPage offset s =
     (if offset < D5x_NVM_UP_SIZE s then
        (case d5x_writePage_quad userPage offset s of
           (Inl e, s') \<Rightarrow> (Inl e, s')
         | (Inr u, s') \<Rightarrow> d5x_writePage_loop userPage (offset + flash_size s') s')
      else (Inr (), s))"
  by pat_completeness auto
termination
proof (relation "measure (\<lambda>(userPage, offset, s). length (incoming s))")
  show "wf (measure (\<lambda>(userPage, offset, s). length (incoming s)))" by simp
next
  fix userPage :: "byte list" and offset :: number and s s' :: "'a flash_scheme" and x u
  assume "(x, s') = d5x_writePage_quad userPage offset s" "x = Inr u"
  then have "d5x_writePage_quad userPage offset s = (Inr u, s')" by simp
  with consumes_d5x_writePage_quad [of userPage offset]
  show "((userPage, offset + flash_size s', s'), userPage, offset, s)
          \<in> measure (\<lambda>(userPage, offset, s). length (incoming s))"
    by (auto simp: consumes_def)
qed

declare d5x_writePage_loop.simps [simp del]

definition d5x_options_security :: "('a flash_scheme, unit) action" where
  "d5x_options_security s =
     (if isDirty (security s) \<and> opt_get (security s) = True then
        andThen d5x_getSecurity
          (\<lambda>current s. if opt_get (security s) \<noteq> current
                        then d5x_command D5x_NVM_CMD_SSB s else (Inr (), s)) s
      else (Inr (), s))"

text \<open>As in the D2x driver, the guard \<open>if (userPage)\<close> of the source is always true.\<close>

definition d5x_writeOptions :: "('a flash_scheme, unit) action" where
  "d5x_writeOptions s =
     (let userPage = replicate (nat (trunc (D5x_NVM_UP_SIZE s))) 0 in
      andThen (d5x_options_bor userPage)
        (\<lambda>userPage. andThen (d5x_options_bod userPage)
           (\<lambda>userPage. andThen (d5x_options_regions userPage)
              (\<lambda>userPage.
                 next_do d5x_manualWrite
                   (next_do (d5x_writeRegU32 D5x_NVM_REG_ADDR D5x_NVM_UP_ADDR)
                      (next_do (d5x_command D5x_NVM_CMD_EP)
                         (next_do (d5x_writePage_loop userPage 0)
                            d5x_options_security)))))) s)"

definition d5x_writePage :: "number \<Rightarrow> ('a flash_scheme, unit) action" where
  "d5x_writePage page s =
     (if page \<ge> flash_pages s then (Inl FlashPageError, s)
      else
        next_do d5x_manualWrite
          (next_do (\<lambda>s. if eraseAuto s \<and> js_mod page D5x_ERASE_BLOCK_PAGES = 0
                         then d5x_erase (page * flash_size s) (D5x_ERASE_BLOCK_PAGES * flash_size s) s
                         else (Inr (), s))
             (next_do (d5x_command D5x_NVM_CMD_PBC)
                (\<lambda>s. let addr = flash_addr s + (page * flash_size s) in
                   next_do prepareApplet
                     (next_do (setDstAddr addr)
                        (next_do (\<lambda>s. setSrcAddr (activeBuffer s) s)
                           (next_do (\<lambda>s. setWords (flash_size s / 4) s)
                              (next_do switchBuffer
                                 (next_do d5x_waitReady
                                    (next_do runv
                                       (next_do (d5x_writeRegU32 D5x_NVM_REG_ADDR (addr / 2))
                                          (d5x_command D5x_NVM_CMD_WP)))))))) s))) s)"

definition d5x_readPage :: "number \<Rightarrow> byte list \<Rightarrow> ('a flash_scheme, byte list) action" where
  "d5x_readPage page buf s =
     (if page \<ge> flash_pages s then (Inl FlashPageError, s)
      else samba_read (flash_addr s + (page * flash_size s)) buf (flash_size s) s)"

definition d5x_writeBuffer :: "number \<Rightarrow> number \<Rightarrow> ('a flash_scheme, unit) action" where
  "d5x_writeBuffer dst_addr size' =
     next_do (\<lambda>s. if eraseAuto s \<and> js_mod (dst_addr / flash_size s) D5x_ERASE_BLOCK_PAGES = 0
                   then d5x_erase dst_addr size' s else (Inr (), s))
       (flash_writeBuffer dst_addr size')"

section \<open>Reading the log\<close>

text \<open>
  A ready-wait in the log: reads of the ready register (\<open>INTFLAG\<close> as a word on D2x,
  \<open>STATUS\<close> as two bytes on D5x), each answered, the last one and only the last one with
  bit 0 set.
\<close>

fun d2x_ready_wait :: "event list \<Rightarrow> bool" where
  "d2x_ready_wait (Sent c None # Recv (Some r) # es) =
     (c = Cmdw (NVM_REG_BASE + D2x_NVM_REG_INTFLAG) \<and>
      (if js_and (word_le r) 0x1 = 0 then d2x_ready_wait es else es = []))"
| "d2x_ready_wait es = False"

fun d5x_ready_wait :: "event list \<Rightarrow> bool" where
  "d5x_ready_wait (Sent c None # Recv (Some lo) # Sent c' None # Recv (Some hi) # es) =
     (c = Cmdo (NVM_REG_BASE + D5x_NVM_REG_STATUS) \<and>
      c' = Cmdo (NVM_REG_BASE + D5x_NVM_REG_STATUS + 1) \<and>
      (if js_and (js_or (u8_get lo 0) (js_shl (u8_get hi 0) 8)) 0x1 = 0
       then d5x_ready_wait es else es = []))"
| "d5x_ready_wait es = False"

text \<open>
  Calls made one after the other, as long as none raises, and the number of buffer
  switches in a log.
\<close>

fun consecutive :: "('s, unit) action list \<Rightarrow> ('s, unit) action" where
  "consecutive [] = ret ()"
| "consecutive (m # ms) = next_do m (consecutive ms)"

definition switches :: "event list \<Rightarrow> nat" where
  "switches es = length (filter (\<lambda>e. e = BufferSwitch) es)"

section \<open>Sessions\<close>

text \<open>
  The methods of a flash driver that act on its state, as calls that can be made in any
  order: those every driver has (\<open>flash_call\<close>, the methods of the base class) and those
  of its own, \<open>erase\<close> and the register helpers. A session is a sequence of calls; the
  client goes on with the same driver object whatever a call returned or raised, at once
  or, with \<open>Idle\<close>, after a pause that lets a write in flight complete. Results are
  dropped: only the driver's state matters here.
\<close>

datatype flash_call =
    EraseAll number
  | SetEraseAuto bool
  | GetLockRegions
  | SetLockRegions "bool list"
  | GetSecurity
  | SetSecurity
  | GetBod
  | SetBod bool
  | GetBor
  | SetBor bool
  | SetBootFlash bool
  | WriteOptions
  | WritePage number
  | ReadPage number "byte list"
  | WriteBuffer number number
  | LoadBuffer "byte list" number number
  | PrepareApplet
  | Idle

definition discard :: "('s, 'a) action \<Rightarrow> ('s, unit) action" where
  "discard m = andThen m (\<lambda>v. ret ())"

fun d2x_call :: "flash_call \<Rightarrow> ('a flash_scheme, unit) action" where
  "d2x_call (EraseAll offset) = d2x_eraseAll offset"
| "d2x_call (SetEraseAuto enable) = set_eraseAuto enable"
| "d2x_call GetLockRegions = discard d2x_getLockRegions"
| "d2x_call (SetLockRegions rs) = setLockRegions rs"
| "d2x_call GetSecurity = discard d2x_getSecurity"
| "d2x_call SetSecurity = setSecurity"
| "d2x_call GetBod = discard d2x_getBod"
| "d2x_call (SetBod enable) = setBod enable"
| "d2x_call GetBor = discard d2x_getBor"
| "d2x_call (SetBor enable) = setBor enable"
| "d2x_call (SetBootFlash enable) = setBootFlash enable"
| "d2x_call WriteOptions = d2x_writeOptions"
| "d2x_call (WritePage page) = d2x_writePage page"
| "d2x_call (ReadPage page buf) = discard (d2x_readPage page buf)"
| "d2x_call (WriteBuffer dst_addr size') = d2x_writeBuffer dst_addr size'"
| "d2x_call (LoadBuffer data offset bufferSize) = loadBuffer data offset bufferSize"
| "d2x_call PrepareApplet = prepareApplet"
| "d2x_call Idle = modify idle"

fun d5x_call :: "flash_call \<Rightarrow> ('a flash_scheme, unit) action" where
  "d5x_call (EraseAll offset) = d5x_eraseAll offset"
| "d5x_call (SetEraseAuto enable) = set_eraseAuto enable"
| "d5x_call GetLockRegions = discard d5x_getLockRegions"
| "d5x_call (SetLockRegions rs) = setLockRegions rs"
| "d5x_call GetSecurity = discard d5x_getSecurity"
| "d5x_call SetSecurity = setSecurity"
| "d5x_call GetBod = discard d5x_getBod"
| "d5x_call (SetBod enable) = setBod enable"
| "d5x_call GetBor = discard d5x_getBor"
| "d5x_call (SetBor enable) = setBor enable"
| "d5x_call (SetBootFlash enable) = setBootFlash enable"
| "d5x_call WriteOptions = d5x_writeOptions"
| "d5x_call (WritePage page) = d5x_writePage page"
| "d5x_call (ReadPage page buf) = discard (d5x_readPage page buf)"
| "d5x_call (WriteBuffer dst_addr size') = d5x_writeBuffer dst_addr size'"
| "d5x_call (LoadBuffer data offset bufferSize) = loadBuffer data offset bufferSize"
| "d5x_call PrepareApplet = prepareApplet"
| "d5x_call Idle = modify idle"

datatype d2x_own =
    D2x_erase number number
  | D2x_readUserRow "byte list"
  | D2x_waitReady
  | D2x_readReg number
  | D2x_writeReg number number
  | D2x_command number

datatype d5x_own =
    D5x_erase number number
  | D5x_readUserPage "byte list"
  | D5x_waitReady
  | D5x_readRegU16 number
  | D5x_writeRegU16 number number
  | D5x_readRegU32 number
  | D5x_writeRegU32 number number
  | D5x_command number

fun d2x_own_call :: "d2x_own \<Rightarrow> ('a flash_scheme, unit) action" where
  "d2x_own_call (D2x_erase offset size') = d2x_erase offset size'"
| "d2x_own_call (D2x_readUserRow userRow) = discard (d2x_readUserRow userRow)"
| "d2x_own_call D2x_waitReady = d2x_waitReady"
| "d2x_own_call (D2x_readReg reg) = discard (d2x_readReg reg)"
| "d2x_own_call (D2x_writeReg reg v) = d2x_writeReg reg v"
| "d2x_own_call (D2x_command cmd) = d2x_command cmd"

fun d5x_own_call :: "d5x_own \<Rightarrow> ('a flash_scheme, unit) action" where
  "d5x_own_call (D5x_erase offset size') = d5x_erase offset size'"
| "d5x_own_call (D5x_readUserPage userRow) = discard (d5x_readUserPage userRow)"
| "d5x_own_call D5x_waitReady = d5x_waitReady"
| "d5x_own_call (D5x_readRegU16 reg) = discard (d5x_readRegU16 reg)"
| "d5x_own_call (D5x_writeRegU16 reg v) = d5x_writeRegU16 reg v"
| "d5x_own_call (D5x_readRegU32 reg) = discard (d5x_readRegU32 reg)"
| "d5x_own_call (D5x_writeRegU32 reg v) = d5x_writeRegU32 reg v"
| "d5x_own_call (D5x_command cmd) = d5x_command cmd"

definition d2x_method :: "flash_call + d2x_own \<Rightarrow> ('a flash_scheme, unit) action" where
  "d2x_method = case_sum d2x_call d2x_own_call"

definition d5x_method :: "flash_call + d5x_own \<Rightarrow> ('a flash_scheme, unit) action" where
  "d5x_method = case_sum d5x_call d5x_own_call"

definition session :: "('c \<Rightarrow> ('s, unit) action) \<Rightarrow> 'c list \<Rightarrow> 's \<Rightarrow> 's" where
  "session call cs s = foldl (\<lambda>s c. snd (call c s)) s cs"

text \<open>Every option that is dirty in \<open>s\<close> is dirty in \<open>s'\<close>.\<close>

definition stays_dirty :: "'a flash_scheme \<Rightarrow> 'a flash_scheme \<Rightarrow> bool" where
  "stays_dirty s s' =
     ((isDirty (bod s) \<longrightarrow> isDirty (bod s')) \<and>
      (isDirty (bor s) \<longrightarrow> isDirty (bor s')) \<and>
      (isDirty (security s) \<longrightarrow> isDirty (security s')) \<and>
      (isDirty (regions s) \<longrightarrow> isDirty (regions s')) \<and>
      (isDirty (bootFlash s) \<longrightarrow> isDirty (bootFlash s')))"

section \<open>Properties\<close>

subsection \<open>decodeResponse\<close>

lemma floor_of_nat_diff: "\<lfloor>(of_nat n :: real) - of_nat k\<rfloor> = int n - int k"
proof -
  have "(of_nat n :: real) - of_nat k = of_int (int n - int k)" by simp
  then show ?thesis by (simp only: floor_of_int)
qed

lemma decodeResponse_drops_two:
  assumes "2 < length buffer"
  shows "fst (decodeResponse buffer) = ascii_decode (take (length buffer - 2) buffer)"
proof -
  have i1: "is_index buffer (of_nat (length buffer) - 1)"
    using assms floor_of_nat_diff [of "length buffer" 1] by (simp add: is_index_def)
  have i2: "is_index (buffer[length buffer - 1 := v]) (of_nat (length buffer) - 2)" for v
    using assms floor_of_nat_diff [of "length buffer" 2] by (simp add: is_index_def)
  have n1: "nat \<lfloor>(of_nat (length buffer) :: real) - 1\<rfloor> = length buffer - 1"
    using floor_of_nat_diff [of "length buffer" 1] by simp
  have n2: "nat \<lfloor>(of_nat (length buffer) :: real) - 2\<rfloor> = length buffer - 2"
    using floor_of_nat_diff [of "length buffer" 2] by simp
  show ?thesis
    using assms i1 i2
    by (simp add: decodeResponse_def u8_assign_def u8_set_def truthy_def subarray_def n1 n2)
qed

text \<open>
  C9. The claim: for a response longer than two bytes, \<open>decodeResponse\<close> strips the last
  two bytes if and only if they are \<open>0x0A, 0x0C\<close>, and otherwise decodes the buffer
  unchanged. The code assigns where the claim compares: on the three bytes \<open>ABC\<close>, which
  do not end in \<open>0x0A, 0x0C\<close>, it overwrites the last two bytes of the caller's buffer
  and returns \<open>A\<close>, where the unchanged buffer decodes to \<open>ABC\<close>.
\<close>

theorem decodeResponse_overwrites_and_strips:
  "decodeResponse [0x41, 0x42, 0x43] = (''A'', [0x41, 0x0a, 0x0c]) \<and>
   ascii_decode [0x41, 0x42, 0x43] = ''ABC''"
  by code_simp

subsection \<open>Capability discovery\<close>

lemma indexOf_from_first:
  "hay = pre @ needle @ post \<Longrightarrow>
   (\<And>pre' post'. hay = pre' @ needle @ post' \<Longrightarrow> length pre \<le> length pre') \<Longrightarrow>
   indexOf_from hay needle i = int (i + length pre)"
proof (induction pre arbitrary: hay i)
  case Nil
  show ?case
  proof (cases hay)
    case Nil
    with Nil.prems(1) show ?thesis by simp
  next
    case (Cons a list)
    have "take (length needle) hay = needle" using Nil.prems(1) by simp
    with Cons show ?thesis by simp
  qed
next
  case (Cons p ps)
  have ne: "take (length needle) hay \<noteq> needle"
  proof
    assume "take (length needle) hay = needle"
    then have "hay = [] @ needle @ drop (length needle) hay"
      by (metis append_Nil append_take_drop_id)
    from Cons.prems(2) [OF this] show False by simp
  qed
  have tl: "indexOf_from (ps @ needle @ post) needle (Suc i) = int (Suc i + length ps)"
  proof (rule Cons.IH [OF refl])
    fix pre' post'
    assume "ps @ needle @ post = pre' @ needle @ post'"
    then have "hay = (p # pre') @ needle @ post'" using Cons.prems(1) by simp
    from Cons.prems(2) [OF this] show "length ps \<le> length pre'" by simp
  qed
  show ?case using Cons.prems(1) ne tl by simp
qed

lemma indexOf_from_none:
  "(\<And>pre post. hay \<noteq> pre @ needle @ post) \<Longrightarrow> indexOf_from hay needle i = - 1"
proof (induction hay arbitrary: i)
  case Nil
  then show ?case by (cases needle) auto
next
  case (Cons c cs)
  have ne: "take (length needle) (c # cs) \<noteq> needle"
  proof
    assume "take (length needle) (c # cs) = needle"
    then have "c # cs = [] @ needle @ drop (length needle) (c # cs)"
      by (metis append_Nil append_take_drop_id)
    with Cons.prems show False by blast
  qed
  have "indexOf_from cs needle (Suc i) = - 1"
  proof (rule Cons.IH)
    fix pre post
    show "cs \<noteq> pre @ needle @ post"
      using Cons.prems [of "c # pre" post] by auto
  qed
  with ne show ?case by simp
qed

lemma extensions_loop_foldl:
  "extIndex \<le> length version \<Longrightarrow>
   extensions_loop version extIndex s =
     foldl (\<lambda>s c. extension c s) s (takeWhile (\<lambda>c. c \<noteq> CHR '']'') (drop extIndex version))"
proof (induction version extIndex s rule: extensions_loop.induct)
  case (1 version extIndex s)
  show ?case
  proof (cases "extIndex < length version")
    case True
    then have d: "drop extIndex version = version ! extIndex # drop (Suc extIndex) version"
      by (simp add: Cons_nth_drop_Suc)
    show ?thesis
    proof (cases "version ! extIndex = CHR '']''")
      case True
      with d show ?thesis by (subst extensions_loop.simps) simp
    next
      case False
      with True "1.IH" d show ?thesis by (subst extensions_loop.simps) simp
    qed
  next
    case False
    with "1.prems" show ?thesis by (subst extensions_loop.simps) simp
  qed
qed

lemma extension_flags:
  fixes s :: "'a samba_scheme"
  shows "canChipErase (extension c s) = (canChipErase s \<or> c = CHR ''X'')"
    and "canWriteBuffer (extension c s) = (canWriteBuffer s \<or> c = CHR ''Y'')"
    and "canChecksumBuffer (extension c s) = (canChecksumBuffer s \<or> c = CHR ''Z'')"
    and "canProtect (extension c s) = (canProtect s \<or> c = CHR ''P'')"
  by (simp_all add: extension_def)

lemma foldl_extension:
  fixes s :: "'a samba_scheme"
  shows "canChipErase (foldl (\<lambda>s c. extension c s) s cs) = (canChipErase s \<or> CHR ''X'' \<in> set cs)"
    and "canWriteBuffer (foldl (\<lambda>s c. extension c s) s cs) = (canWriteBuffer s \<or> CHR ''Y'' \<in> set cs)"
    and "canChecksumBuffer (foldl (\<lambda>s c. extension c s) s cs) = (canChecksumBuffer s \<or> CHR ''Z'' \<in> set cs)"
    and "canProtect (foldl (\<lambda>s c. extension c s) s cs) = (canProtect s \<or> CHR ''P'' \<in> set cs)"
proof (induction cs arbitrary: s)
  case Nil
  {
    case 1 show ?case by simp
  next
    case 2 show ?case by simp
  next
    case 3 show ?case by simp
  next
    case 4 show ?case by simp
  }
next
  case (Cons c cs)
  {
    case 1 show ?case by (simp add: Cons.IH extension_flags) blast
  next
    case 2 show ?case by (simp add: Cons.IH extension_flags) blast
  next
    case 3 show ?case by (simp add: Cons.IH extension_flags) blast
  next
    case 4 show ?case by (simp add: Cons.IH extension_flags) blast
  }
qed

lemma discover_flags:
  fixes s :: "'a samba_scheme"
  shows
    "(\<forall>pre post.
        version = pre @ ''[Arduino:'' @ post \<and>
        (\<forall>pre' post'. version = pre' @ ''[Arduino:'' @ post' \<longrightarrow> length pre \<le> length pre') \<longrightarrow>
        (let inside = takeWhile (\<lambda>c. c \<noteq> CHR '']'') post; s' = discover version s in
         canChipErase s' = (canChipErase s \<or> CHR ''X'' \<in> set inside) \<and>
         canWriteBuffer s' = (canWriteBuffer s \<or> CHR ''Y'' \<in> set inside) \<and>
         canChecksumBuffer s' = (canChecksumBuffer s \<or> CHR ''Z'' \<in> set inside) \<and>
         canProtect s' = (canProtect s \<or> CHR ''P'' \<in> set inside) \<and>
         readBufferSize s' = 63)) \<and>
     ((\<forall>pre post. version \<noteq> pre @ ''[Arduino:'' @ post) \<longrightarrow> discover version s = s)"
proof (intro conjI allI impI)
  fix pre post
  assume h: "version = pre @ ''[Arduino:'' @ post \<and>
        (\<forall>pre' post'. version = pre' @ ''[Arduino:'' @ post' \<longrightarrow> length pre \<le> length pre')"
  then have ix: "indexOf version ''[Arduino:'' = int (length pre)"
    unfolding indexOf_def using indexOf_from_first [of version pre "''[Arduino:''" post 0] by auto
  have dr: "drop (length pre + 9) version = post" using h by simp
  have le: "length pre + 9 \<le> length version" using h by simp
  have "discover version s =
          (foldl (\<lambda>s c. extension c s) s (takeWhile (\<lambda>c. c \<noteq> CHR '']'') post))
            \<lparr> readBufferSize := 63 \<rparr>"
    using extensions_loop_foldl [OF le, of s] dr
    by (simp add: discover_def ix nat_add_distrib)
  then show "let inside = takeWhile (\<lambda>c. c \<noteq> CHR '']'') post; s' = discover version s in
         canChipErase s' = (canChipErase s \<or> CHR ''X'' \<in> set inside) \<and>
         canWriteBuffer s' = (canWriteBuffer s \<or> CHR ''Y'' \<in> set inside) \<and>
         canChecksumBuffer s' = (canChecksumBuffer s \<or> CHR ''Z'' \<in> set inside) \<and>
         canProtect s' = (canProtect s \<or> CHR ''P'' \<in> set inside) \<and>
         readBufferSize s' = 63"
    by (simp add: Let_def foldl_extension)
next
  assume "\<forall>pre post. version \<noteq> pre @ ''[Arduino:'' @ post"
  then have "indexOf version ''[Arduino:'' = - 1"
    unfolding indexOf_def by (intro indexOf_from_none) blast
  then show "discover version s = s" by (simp add: discover_def)
qed

lemma readBuffer_loop_all:
  "0 \<notin> set bs \<Longrightarrow> of_nat (length reply + length bs) \<le> n \<Longrightarrow>
   readBuffer_loop (Some n) reply bs = reply @ bs"
proof (induction bs arbitrary: reply)
  case Nil
  then show ?case by simp
next
  case (Cons c cs)
  have c: "c \<noteq> 0" using Cons.prems(1) by auto
  show ?case
  proof (cases "of_nat (Suc (length reply)) = n")
    case True
    have "real (length reply) + 1 + real (length cs) \<le> n" using Cons.prems(2) by simp
    moreover have "real (length reply) + 1 = n" using True by simp
    ultimately have "real (length cs) \<le> 0" by linarith
    then have "cs = []" by simp
    with True c show ?thesis by (simp add: Let_def)
  next
    case False
    have "readBuffer_loop (Some n) (reply @ [c]) cs = (reply @ [c]) @ cs"
      using Cons.prems by (intro Cons.IH) simp_all
    with False c show ?thesis by (simp add: Let_def)
  qed
qed

lemma connect_answered:
  fixes s :: "'a samba_scheme"
  assumes "inflight s = None" "incoming s = r0 # r1 # bs # rest"
    "readBuffer_loop (Some 256) [] bs = reply" "reply \<noteq> []"
  shows "\<exists>es. connect s =
           (Inr (), discover (fst (decodeResponse reply))
                      (s\<lparr> incoming := rest, wire := wire s @ es \<rparr>))"
  using assms
  by (auto simp add: connect_def readBuffer_def setBinaryMode_def sendCommand_def
        readVersion_def Let_def truthy_def)

text \<open>
  C6. \<open>_connect\<close> on a client with no write in flight, the target answering the \<open>V\<close>
  command with the bytes \<open>reply\<close>. The version string is what \<open>readVersion\<close> returns,
  \<open>decodeResponse\<close> of the reply, which for a reply of more than two bytes is the reply
  without its last two bytes. \<open>_connect\<close> returns normally. If the version string
  contains \<open>[Arduino:\<close>, then with \<open>post\<close> the text after its first occurrence and
  \<open>inside\<close> the part of \<open>post\<close> before the first \<open>]\<close>, the characters X, Y, Z and P of
  \<open>inside\<close> set \<open>canChipErase\<close>, \<open>canWriteBuffer\<close>, \<open>canChecksumBuffer\<close> and
  \<open>canProtect\<close>, and \<open>readBufferSize\<close> becomes 63. If it does not, the four flags and
  \<open>readBufferSize\<close> are as before, \<open>False\<close> and 0 since the constructor.
\<close>

theorem capability_parsing:
  fixes s :: "'a samba_scheme"
  assumes "inflight s = None" and "incoming s = r0 # r1 # bs # rest"
    and "readBuffer_loop (Some 256) [] bs = reply" and "reply \<noteq> []"
    and "version = fst (decodeResponse reply)"
  shows
    "fst (connect s) = Inr () \<and>
     (2 < length reply \<longrightarrow> version = ascii_decode (take (length reply - 2) reply)) \<and>
     (\<forall>pre post.
        version = pre @ ''[Arduino:'' @ post \<and>
        (\<forall>pre' post'. version = pre' @ ''[Arduino:'' @ post' \<longrightarrow> length pre \<le> length pre') \<longrightarrow>
        (let inside = takeWhile (\<lambda>c. c \<noteq> CHR '']'') post; s' = snd (connect s) in
           canChipErase s' = (canChipErase s \<or> CHR ''X'' \<in> set inside) \<and>
           canWriteBuffer s' = (canWriteBuffer s \<or> CHR ''Y'' \<in> set inside) \<and>
           canChecksumBuffer s' = (canChecksumBuffer s \<or> CHR ''Z'' \<in> set inside) \<and>
           canProtect s' = (canProtect s \<or> CHR ''P'' \<in> set inside) \<and>
           readBufferSize s' = 63)) \<and>
     ((\<forall>pre post. version \<noteq> pre @ ''[Arduino:'' @ post) \<longrightarrow>
        (let s' = snd (connect s) in
           canChipErase s' = canChipErase s \<and> canWriteBuffer s' = canWriteBuffer s \<and>
           canChecksumBuffer s' = canChecksumBuffer s \<and> canProtect s' = canProtect s \<and>
           readBufferSize s' = readBufferSize s))"
proof -
  from connect_answered [OF assms(1-4)] obtain es where
    c: "connect s = (Inr (), discover version (s\<lparr> incoming := rest, wire := wire s @ es \<rparr>))"
    unfolding assms(5) by blast
  let ?t = "s\<lparr> incoming := rest, wire := wire s @ es \<rparr>"
  note d = discover_flags [of version ?t]
  show ?thesis
  proof (intro conjI allI impI)
    show "fst (connect s) = Inr ()" using c by simp
  next
    assume "2 < length reply"
    then show "version = ascii_decode (take (length reply - 2) reply)"
      unfolding assms(5) by (rule decodeResponse_drops_two)
  next
    fix pre post
    assume h: "version = pre @ ''[Arduino:'' @ post \<and>
        (\<forall>pre' post'. version = pre' @ ''[Arduino:'' @ post' \<longrightarrow> length pre \<le> length pre')"
    from d [THEN conjunct1, rule_format, OF h]
    show "let inside = takeWhile (\<lambda>c. c \<noteq> CHR '']'') post; s' = snd (connect s) in
           canChipErase s' = (canChipErase s \<or> CHR ''X'' \<in> set inside) \<and>
           canWriteBuffer s' = (canWriteBuffer s \<or> CHR ''Y'' \<in> set inside) \<and>
           canChecksumBuffer s' = (canChecksumBuffer s \<or> CHR ''Z'' \<in> set inside) \<and>
           canProtect s' = (canProtect s \<or> CHR ''P'' \<in> set inside) \<and>
           readBufferSize s' = 63"
      using c by (simp add: Let_def)
  next
    assume h: "\<forall>pre post. version \<noteq> pre @ ''[Arduino:'' @ post"
    from d [THEN conjunct2, THEN mp, OF h]
    show "let s' = snd (connect s) in
           canChipErase s' = canChipErase s \<and> canWriteBuffer s' = canWriteBuffer s \<and>
           canChecksumBuffer s' = canChecksumBuffer s \<and> canProtect s' = canProtect s \<and>
           readBufferSize s' = readBufferSize s"
      using c by (simp add: Let_def)
  qed
qed

lemma marker_first:
  assumes "v = pre @ ''[Arduino:'' @ post" "CHR ''['' \<notin> set pre"
  shows "\<forall>pre' post'. v = pre' @ ''[Arduino:'' @ post' \<longrightarrow> length pre \<le> length pre'"
proof (intro allI impI, rule ccontr)
  fix pre' post'
  assume e: "v = pre' @ ''[Arduino:'' @ post'" and "\<not> length pre \<le> length pre'"
  then have lt: "length pre' < length pre" by simp
  have "v ! length pre' = CHR ''[''" by (subst e) (simp add: nth_append)
  moreover have "v ! length pre' = pre ! length pre'"
    by (subst assms(1)) (simp add: nth_append lt)
  ultimately have "CHR ''['' \<in> set pre" using lt by (metis nth_mem)
  with assms(2) show False by simp
qed

lemma marker_absent:
  assumes "CHR ''['' \<notin> set v"
  shows "\<forall>pre post. v \<noteq> pre @ ''[Arduino:'' @ post"
proof (intro allI notI)
  fix pre post
  assume "v = pre @ ''[Arduino:'' @ post"
  then have "CHR ''['' \<in> set v" by simp
  with assms show False by simp
qed

text \<open>
  Three replies to \<open>V\<close>: the banner \<open>v[Arduino:XYZP]\<close> followed by the two terminator
  bytes, the banner \<open>v1.1\<close> followed by them, and \<open>v[Arduino:XYZP]\<close> with nothing after
  it, whose last two characters the version string therefore lacks.
\<close>

theorem capability_parsing_witness:
  "(let s' = snd (connect (SamBA_new [[], [],
               [0x76, 0x5b, 0x41, 0x72, 0x64, 0x75, 0x69, 0x6e, 0x6f, 0x3a,
                0x58, 0x59, 0x5a, 0x50, 0x5d, 0x0a, 0x0d]])) in
      canChipErase s' \<and> canWriteBuffer s' \<and> canChecksumBuffer s' \<and> canProtect s' \<and>
      readBufferSize s' = 63) \<and>
   (let s' = snd (connect (SamBA_new [[], [], [0x76, 0x31, 0x2e, 0x31, 0x0a, 0x0d]])) in
      \<not> canChipErase s' \<and> \<not> canWriteBuffer s' \<and> \<not> canChecksumBuffer s' \<and> \<not> canProtect s' \<and>
      readBufferSize s' = 0) \<and>
   (let s' = snd (connect (SamBA_new [[], [],
               [0x76, 0x5b, 0x41, 0x72, 0x64, 0x75, 0x69, 0x6e, 0x6f, 0x3a,
                0x58, 0x59, 0x5a, 0x50, 0x5d]])) in
      canChipErase s' \<and> canWriteBuffer s' \<and> canChecksumBuffer s' \<and> \<not> canProtect s' \<and>
      readBufferSize s' = 63)"
proof (intro conjI)
  let ?b = "[0x76, 0x5b, 0x41, 0x72, 0x64, 0x75, 0x69, 0x6e, 0x6f, 0x3a,
             0x58, 0x59, 0x5a, 0x50, 0x5d, 0x0a, 0x0d] :: byte list"
  have r: "readBuffer_loop (Some 256) [] ?b = ?b" using readBuffer_loop_all [of ?b "[]" 256] by simp
  have v: "''v[Arduino:XYZP]'' = fst (decodeResponse ?b)" by code_simp
  have m: "''v[Arduino:XYZP]'' = ''v'' @ ''[Arduino:'' @ ''XYZP]''" by simp
  from capability_parsing [of "SamBA_new [[], [], ?b]" "[]" "[]" ?b "[]" ?b, OF _ _ r _ v,
      THEN conjunct2, THEN conjunct2, THEN conjunct1, rule_format,
      OF _ _ _ conjI [OF m marker_first [OF m]]]
  show "let s' = snd (connect (SamBA_new [[], [], ?b])) in
      canChipErase s' \<and> canWriteBuffer s' \<and> canChecksumBuffer s' \<and> canProtect s' \<and>
      readBufferSize s' = 63"
    by (simp add: SamBA_new_def Let_def)
next
  let ?b = "[0x76, 0x31, 0x2e, 0x31, 0x0a, 0x0d] :: byte list"
  have r: "readBuffer_loop (Some 256) [] ?b = ?b" using readBuffer_loop_all [of ?b "[]" 256] by simp
  have v: "''v1.1'' = fst (decodeResponse ?b)" by code_simp
  have a: "\<forall>pre post. ''v1.1'' \<noteq> pre @ ''[Arduino:'' @ post" by (rule marker_absent) simp
  from capability_parsing [of "SamBA_new [[], [], ?b]" "[]" "[]" ?b "[]" ?b, OF _ _ r _ v,
      THEN conjunct2, THEN conjunct2, THEN conjunct2, THEN mp, OF _ _ _ a]
  show "let s' = snd (connect (SamBA_new [[], [], ?b])) in
      \<not> canChipErase s' \<and> \<not> canWriteBuffer s' \<and> \<not> canChecksumBuffer s' \<and> \<not> canProtect s' \<and>
      readBufferSize s' = 0"
    by (simp add: SamBA_new_def Let_def)
next
  let ?b = "[0x76, 0x5b, 0x41, 0x72, 0x64, 0x75, 0x69, 0x6e, 0x6f, 0x3a,
             0x58, 0x59, 0x5a, 0x50, 0x5d] :: byte list"
  have r: "readBuffer_loop (Some 256) [] ?b = ?b" using readBuffer_loop_all [of ?b "[]" 256] by simp
  have v: "''v[Arduino:XYZ'' = fst (decodeResponse ?b)" by code_simp
  have m: "''v[Arduino:XYZ'' = ''v'' @ ''[Arduino:'' @ ''XYZ''" by simp
  from capability_parsing [of "SamBA_new [[], [], ?b]" "[]" "[]" ?b "[]" ?b, OF _ _ r _ v,
      THEN conjunct2, THEN conjunct2, THEN conjunct1, rule_format,
      OF _ _ _ conjI [OF m marker_first [OF m]]]
  show "let s' = snd (connect (SamBA_new [[], [], ?b])) in
      canChipErase s' \<and> canWriteBuffer s' \<and> canChecksumBuffer s' \<and> \<not> canProtect s' \<and>
      readBufferSize s' = 63"
    by (simp add: SamBA_new_def Let_def)
qed

subsection \<open>The USB read quirk\<close>

lemma and_pred_pow2_nat:
  fixes n :: nat
  assumes "0 < n"
  shows "(n AND (n - 1) = 0) = (\<exists>k. n = 2 ^ k)"
  using assms
proof (induction n rule: less_induct)
  case (less n)
  show ?case
  proof (cases "even n")
    case True
    then obtain m where n: "n = 2 * m" by (auto elim: evenE)
    with less.prems have m: "0 < m" "m < n" by auto
    have pred: "(2 * m - Suc 0) div 2 = m - Suc 0" using m by arith
    have odd: "odd (2 * m - Suc 0)" using m by simp
    have "2 * m AND (2 * m - Suc 0) = 2 * (m AND (m - Suc 0))"
      by (subst and_nat_rec) (simp add: pred)
    then have "(n AND (n - 1) = 0) = (m AND (m - 1) = 0)" by (simp add: n)
    also have "\<dots> = (\<exists>k. m = 2 ^ k)" using less.IH [OF m(2) m(1)] .
    also have "\<dots> = (\<exists>k. n = 2 ^ k)"
    proof
      assume "\<exists>k. m = 2 ^ k"
      then obtain k where "m = 2 ^ k" ..
      then have "n = 2 ^ Suc k" using n by simp
      then show "\<exists>k. n = 2 ^ k" ..
    next
      assume "\<exists>k. n = 2 ^ k"
      then obtain k where k: "n = 2 ^ k" ..
      with True have "k \<noteq> 0" by (cases k) auto
      then obtain j where "k = Suc j" by (cases k) auto
      with k n have "m = 2 ^ j" by simp
      then show "\<exists>k. m = 2 ^ k" ..
    qed
    finally show ?thesis .
  next
    case False
    show ?thesis
    proof (cases "n = 1")
      case True
      have "(1::nat) = 2 ^ 0" by simp
      then have "\<exists>k. (1::nat) = 2 ^ k" ..
      with True show ?thesis by simp
    next
      case n1: False
      from False obtain m where n: "n = 2 * m + 1" by (auto elim: oddE)
      with n1 have m: "0 < m" by auto
      have "(2 * m + 1) AND (2 * m) = 2 * (m AND m)"
        by (subst and_nat_rec) simp
      then have nz: "n AND (n - 1) \<noteq> 0" using m by (simp add: n)
      have "\<not> (\<exists>k. n = 2 ^ k)"
      proof
        assume "\<exists>k. n = 2 ^ k"
        then obtain k where k: "n = 2 ^ k" ..
        with False have "k = 0" by (cases k) auto
        with k n1 show False by simp
      qed
      with nz show ?thesis by simp
    qed
  qed
qed

lemma word32_and_of_nat_eq_0:
  assumes "a < 2 ^ 32" "b < 2 ^ 32"
  shows "((word_of_nat a :: 32 word) AND word_of_nat b = 0) = (a AND b = 0)"
proof -
  have "((word_of_nat a :: 32 word) AND word_of_nat b = 0) =
        ((word_of_nat (a AND b) :: 32 word) = word_of_nat 0)"
    by (simp add: of_nat_and_eq)
  also have "\<dots> = (take_bit 32 (a AND b) = take_bit 32 (0::nat))"
    by (simp only: word_of_nat_eq_iff) simp
  also have "\<dots> = (a AND b = 0)"
    using assms by (simp add: take_bit_and take_bit_nat_eq_self)
  finally show ?thesis .
qed

lemma js_and_pred_nat:
  assumes "0 < n" "n \<le> 2 ^ 32"
  shows "truthy (js_and (of_nat n) (of_nat n - 1)) = (\<not> (\<exists>k. n = 2 ^ k))"
proof -
  have r: "(of_nat n :: real) - 1 = of_nat (n - 1)" using assms(1) by (simp add: of_nat_diff)
  have t1: "ToInt32 (of_nat n) = word_of_nat n" by (simp add: ToInt32_def trunc_def)
  have t2: "ToInt32 (of_nat n - 1) = word_of_nat (n - 1)"
    unfolding r by (simp add: ToInt32_def trunc_def)
  have tr: "truthy (js_and (of_nat n) (of_nat n - 1)) =
            ((word_of_nat n :: 32 word) AND word_of_nat (n - 1) \<noteq> 0)"
    by (simp add: truthy_def js_and_def fromInt32_def t1 t2 signed_eq_0_iff)
  show ?thesis
  proof (cases "n = 2 ^ 32")
    case True
    have z: "(word_of_nat n :: 32 word) = 0" unfolding True by simp
    have p: "\<exists>k. n = 2 ^ k" using True by blast
    show ?thesis using tr z p by simp
  next
    case False
    with assms have "n < 2 ^ 32" "n - 1 < 2 ^ 32" by simp_all
    then show ?thesis
      unfolding tr using word32_and_of_nat_eq_0 [of n "n - 1"] and_pred_pow2_nat [OF assms(1)]
      by simp
  qed
qed

lemma sent_commands_append:
  "sent_commands (xs @ ys) = sent_commands xs @ sent_commands ys"
  by (induction xs rule: sent_commands.induct) simp_all

lemma sendCommand_locked:
  "inflight s = Some c \<Longrightarrow>
   sendCommand cmd n d z s = (Inl TypeError, s\<lparr> inflight := Some cmd \<rparr>)"
  by (simp add: sendCommand_def)

lemma sendCommand_wire:
  "inflight s = None \<Longrightarrow> sendCommand cmd n d z s = (r, s') \<Longrightarrow>
   \<exists>x. r = Inr x \<and> inflight s' = None \<and>
       wire s' = wire s @ (if n > 0 then [Sent cmd d, Recv x] else [Sent cmd d])"
  by (auto simp: sendCommand_def readBuffer_def Let_def split: if_splits list.splits)

lemma sendCommand_readBufferSize:
  "sendCommand cmd n d z s = (r, s') \<Longrightarrow> readBufferSize s' = readBufferSize s"
  by (auto simp: sendCommand_def readBuffer_def Let_def
           split: if_splits list.splits option.splits)

lemma read_loop_single:
  fixes s :: "'a samba_scheme"
  assumes "readBufferSize s = 0" "0 < size'" "inflight s = None"
    "read_loop addr buffer size' start s = (res, s')"
  shows "sent_commands (wire s') = sent_commands (wire s) @ [CmdR addr size']"
proof -
  obtain result s1 where sc: "sendCommand (CmdR addr size') size' None 0 s = (result, s1)"
    by (cases "sendCommand (CmdR addr size') size' None 0 s")
  from sendCommand_wire [OF assms(3) sc] assms(2) obtain x where
    x: "result = Inr x" and w: "wire s1 = wire s @ [Sent (CmdR addr size') None, Recv x]"
    by auto
  show ?thesis
  proof (cases x)
    case None
    with assms sc x have "s' = s1" by (subst (asm) read_loop.simps) simp
    with w show ?thesis by (simp add: sent_commands_append)
  next
    case (Some r)
    with assms sc x have "s' = s1"
      by (subst (asm) read_loop.simps) (simp add: read_loop.simps [of _ _ 0] split: prod.splits)
    with w show ?thesis by (simp add: sent_commands_append)
  qed
qed

text \<open>The \<open>R\<close> commands for chunks of the sizes \<open>ms\<close>, one after the other from \<open>addr\<close>.\<close>

fun read_cmds :: "number \<Rightarrow> number list \<Rightarrow> command list" where
  "read_cmds addr [] = []"
| "read_cmds addr (m # ms) = CmdR addr m # read_cmds (addr + m) ms"

lemma read_loop_chunks:
  fixes s :: "'a samba_scheme"
  shows "read_loop addr buffer size' start s = (res, s') \<Longrightarrow> 0 < readBufferSize s \<Longrightarrow>
    \<exists>ms. sent_commands (wire s') = sent_commands (wire s) @ read_cmds addr ms \<and>
      (\<forall>m \<in> set ms. 0 < m \<and> m \<le> readBufferSize s) \<and>
      (\<forall>m \<in> set (butlast ms). m = readBufferSize s) \<and>
      sum_list ms \<le> max size' 0 \<and>
      ((\<exists>b. res = Inr b) \<longrightarrow> sum_list ms = max size' 0) \<and>
      (inflight s = None \<and> 0 < size' \<longrightarrow> ms \<noteq> [])"
proof (induction addr buffer size' start s arbitrary: res s' rule: read_loop.induct)
  case (1 addr buffer size' start s)
  let ?P = "\<lambda>ms. sent_commands (wire s') = sent_commands (wire s) @ read_cmds addr ms \<and>
      (\<forall>m \<in> set ms. 0 < m \<and> m \<le> readBufferSize s) \<and>
      (\<forall>m \<in> set (butlast ms). m = readBufferSize s) \<and>
      sum_list ms \<le> max size' 0 \<and>
      ((\<exists>b. res = Inr b) \<longrightarrow> sum_list ms = max size' 0) \<and>
      (inflight s = None \<and> 0 < size' \<longrightarrow> ms \<noteq> [])"
  show ?case
  proof (cases "size' > 0")
    case False
    with "1.prems"(1) have "(res, s') = (Inr buffer, s)" by (subst (asm) read_loop.simps) simp
    then have "s' = s" "res = Inr buffer" by simp_all
    with False have "?P []" by simp
    then show ?thesis ..
  next
    case True
    define chunk where "chunk = (if readBufferSize s > 0 \<and> size' > readBufferSize s
                      then readBufferSize s else size')"
    have ch: "0 < chunk" "chunk \<le> readBufferSize s" "chunk \<le> size'"
      "chunk \<noteq> readBufferSize s \<longrightarrow> chunk = size'"
      using True "1.prems"(2) by (auto simp: chunk_def)
    obtain result s1 where sc: "sendCommand (CmdR addr chunk) chunk None 0 s = (result, s1)"
      by (cases "sendCommand (CmdR addr chunk) chunk None 0 s")
    have rb: "readBufferSize s1 = readBufferSize s" using sendCommand_readBufferSize [OF sc] .
    show ?thesis
    proof (cases "inflight s")
      case (Some c)
      from sendCommand_locked [OF Some] sc
      have r: "result = Inl TypeError" "s1 = s\<lparr> inflight := Some (CmdR addr chunk) \<rparr>" by simp_all
      with "1.prems"(1) True sc have "(res, s') = (Inl TypeError, s1)"
        by (subst (asm) read_loop.simps) (simp add: chunk_def [symmetric])
      then have "s' = s1" "res = Inl TypeError" by simp_all
      with r Some True have "?P []" by simp
      then show ?thesis ..
    next
      case None
      from sendCommand_wire [OF None sc] ch(1) obtain x where
        x: "result = Inr x" and fl: "inflight s1 = None"
        and w: "wire s1 = wire s @ [Sent (CmdR addr chunk) None, Recv x]"
        by auto
      show ?thesis
      proof (cases x)
        case n: None
        with "1.prems"(1) True sc x have "(res, s') = (Inl SamBAError, s1)"
          by (subst (asm) read_loop.simps) (simp add: chunk_def [symmetric])
        then have "s' = s1" "res = Inl SamBAError" by simp_all
        with w ch(1,2,3) True have "?P [chunk]" by (simp add: sent_commands_append)
        then show ?thesis ..
      next
        case (Some r)
        obtain buffer' start' where rc: "read_copy 0 chunk r start buffer = (buffer', start')"
          by (cases "read_copy 0 chunk r start buffer")
        from "1.prems"(1) True sc x Some rc
        have rec: "read_loop (addr + chunk) buffer' (size' - chunk) (start' + chunk) s1 = (res, s')"
          by (subst (asm) read_loop.simps) (simp add: chunk_def [symmetric])
        have rb1: "0 < readBufferSize s1" using rb "1.prems"(2) by simp
        from "1.IH" [OF True chunk_def sc [symmetric] refl x Some rc [symmetric] refl rec rb1]
        obtain ms where ms:
          "sent_commands (wire s') = sent_commands (wire s1) @ read_cmds (addr + chunk) ms"
          "\<forall>m \<in> set ms. 0 < m \<and> m \<le> readBufferSize s"
          "\<forall>m \<in> set (butlast ms). m = readBufferSize s"
          "sum_list ms \<le> max (size' - chunk) 0"
          "(\<exists>b. res = Inr b) \<longrightarrow> sum_list ms = max (size' - chunk) 0"
          unfolding rb by blast
        have e: "chunk \<noteq> readBufferSize s \<longrightarrow> ms = []"
        proof
          assume "chunk \<noteq> readBufferSize s"
          with ch(4) have z: "sum_list ms \<le> 0" using ms(4) by simp
          show "ms = []"
          proof (cases ms)
            case (Cons m ms')
            have "0 \<le> sum_list ms'" using ms(2) Cons by (intro sum_list_nonneg) fastforce
            moreover have "0 < m" using ms(2) Cons by simp
            ultimately show ?thesis using z Cons by simp
          qed simp
        qed
        have "?P (chunk # ms)"
        proof (intro conjI)
          show "sent_commands (wire s') = sent_commands (wire s) @ read_cmds addr (chunk # ms)"
            using ms(1) w by (simp add: sent_commands_append)
          show "\<forall>m \<in> set (chunk # ms). 0 < m \<and> m \<le> readBufferSize s"
            using ms(2) ch(1,2) by simp
          show "\<forall>m \<in> set (butlast (chunk # ms)). m = readBufferSize s"
          proof (cases "ms = []")
            case True
            then show ?thesis by simp
          next
            case False
            with e have "chunk = readBufferSize s" by blast
            with False ms(3) show ?thesis by simp
          qed
          show "sum_list (chunk # ms) \<le> max size' 0" using ms(4) ch(3) True by simp
          show "(\<exists>b. res = Inr b) \<longrightarrow> sum_list (chunk # ms) = max size' 0"
          proof
            assume "\<exists>b. res = Inr b"
            with ms(5) have "sum_list ms = max (size' - chunk) 0" by blast
            with ch(3) True show "sum_list (chunk # ms) = max size' 0" by simp
          qed
          show "inflight s = None \<and> 0 < size' \<longrightarrow> chunk # ms \<noteq> []" by simp
        qed
        then show ?thesis ..
      qed
    qed
  qed
qed

lemma readByte_answered:
  assumes "inflight s = None" "incoming s = (c # cs) # rest"
  shows "readByte addr s =
           (Inr (of_nat (unat c)),
            s\<lparr> wire := wire s @ [Sent (Cmdo addr) None, Recv (Some [c])], incoming := rest \<rparr>)"
  using assms
  by (simp add: readByte_def sendCommand_def readBuffer_def Let_def truthy_def u8_get_def
                is_index_def)

text \<open>
  C8. For a read of \<open>size'\<close> bytes, a whole number of at most \<open>2 ^ 32\<close>, by a client with
  no write in flight: with \<open>readBufferSize = 0\<close> and a size that is a power of two above
  32, when the target answers the byte read, \<open>read\<close> sends exactly one \<open>readByte\<close>
  command and then one \<open>R\<close> command for the remaining \<open>size' - 1\<close> bytes; with
  \<open>readBufferSize = 0\<close> and a positive size not of that shape it sends a single \<open>R\<close>
  command for the whole size. With \<open>readBufferSize > 0\<close>, for any size and any client,
  what \<open>read\<close> sends is a sequence of \<open>R\<close> commands for consecutive addresses from
  \<open>addr\<close>, each for at most \<open>readBufferSize\<close> bytes and each but the last for exactly
  \<open>readBufferSize\<close> bytes; if the size is positive and no write is in flight there is at
  least one, and if \<open>read\<close> returns normally their sizes add up to the requested size.
\<close>

theorem read_usb_quirk:
  fixes s :: "'a samba_scheme"
  assumes run: "samba_read addr buffer size' s = (res, s')"
  shows
    "(readBufferSize s = 0 \<and> inflight s = None \<and>
      size' = of_nat n \<and> 32 < n \<and> n \<le> 2 ^ 32 \<and> (\<exists>k. n = 2 ^ k) \<and>
      incoming s = (c # cs) # rest \<longrightarrow>
        sent_commands (wire s') =
          sent_commands (wire s) @ [Cmdo addr, CmdR (addr + 1) (size' - 1)]) \<and>
     (readBufferSize s = 0 \<and> inflight s = None \<and>
      size' = of_nat n \<and> 0 < n \<and> n \<le> 2 ^ 32 \<and>
      \<not> (32 < n \<and> (\<exists>k. n = 2 ^ k)) \<longrightarrow>
        sent_commands (wire s') = sent_commands (wire s) @ [CmdR addr size']) \<and>
     (0 < readBufferSize s \<longrightarrow>
        (\<exists>ms. sent_commands (wire s') = sent_commands (wire s) @ read_cmds addr ms \<and>
           (\<forall>m \<in> set ms. 0 < m \<and> m \<le> readBufferSize s) \<and>
           (\<forall>m \<in> set (butlast ms). m = readBufferSize s) \<and>
           (inflight s = None \<and> 0 < size' \<longrightarrow> ms \<noteq> []) \<and>
           ((\<exists>b. res = Inr b) \<and> 0 < size' \<longrightarrow> sum_list ms = size')))"
proof (intro conjI impI)
  assume h: "readBufferSize s = 0 \<and> inflight s = None \<and>
             size' = of_nat n \<and> 32 < n \<and> n \<le> 2 ^ 32 \<and>
             (\<exists>k. n = 2 ^ k) \<and> incoming s = (c # cs) # rest"
  then have n: "0 < n" "n \<le> 2 ^ 32" by simp_all
  have quirk: "\<not> truthy (js_and size' (size' - 1))"
    using js_and_pred_nat [OF n] h by simp
  have big: "size' > 32" using h by simp
  define s1 where
    "s1 = s\<lparr> wire := wire s @ [Sent (Cmdo addr) None, Recv (Some [c])], incoming := rest \<rparr>"
  have rb: "readByte addr s = (Inr (of_nat (unat c)), s1)"
    unfolding s1_def using h by (intro readByte_answered) simp_all
  from run h quirk big rb
  have loop: "read_loop (addr + 1) (u8_set buffer 0 (of_nat (unat c))) (size' - 1) 1 s1 = (res, s')"
    by (simp add: samba_read_def)
  have z: "readBufferSize s1 = 0" "inflight s1 = None" using h by (simp_all add: s1_def)
  from read_loop_single [OF z(1) _ z(2) loop] big
  show "sent_commands (wire s') =
          sent_commands (wire s) @ [Cmdo addr, CmdR (addr + 1) (size' - 1)]"
    by (simp add: s1_def sent_commands_append)
next
  assume h: "readBufferSize s = 0 \<and> inflight s = None \<and>
             size' = of_nat n \<and> 0 < n \<and> n \<le> 2 ^ 32 \<and>
             \<not> (32 < n \<and> (\<exists>k. n = 2 ^ k))"
  then have n: "0 < n" "n \<le> 2 ^ 32" by simp_all
  have "\<not> (size' > 32 \<and> \<not> truthy (js_and size' (size' - 1)))"
    using js_and_pred_nat [OF n] h by auto
  with run have loop: "read_loop addr buffer size' 0 s = (res, s')"
    by (auto simp: samba_read_def)
  from read_loop_single [OF _ _ _ loop] h
  show "sent_commands (wire s') = sent_commands (wire s) @ [CmdR addr size']" by simp
next
  assume h: "0 < readBufferSize s"
  with run have "read_loop addr buffer size' 0 s = (res, s')"
    by (simp add: samba_read_def)
  from read_loop_chunks [OF this h] obtain ms where ms:
    "sent_commands (wire s') = sent_commands (wire s) @ read_cmds addr ms"
    "\<forall>m \<in> set ms. 0 < m \<and> m \<le> readBufferSize s"
    "\<forall>m \<in> set (butlast ms). m = readBufferSize s"
    "(\<exists>b. res = Inr b) \<longrightarrow> sum_list ms = max size' 0"
    "inflight s = None \<and> 0 < size' \<longrightarrow> ms \<noteq> []"
    by blast
  have "(\<exists>b. res = Inr b) \<and> 0 < size' \<longrightarrow> sum_list ms = size'" using ms(4) by auto
  with ms(1,2,3,5)
  show "\<exists>ms. sent_commands (wire s') = sent_commands (wire s) @ read_cmds addr ms \<and>
           (\<forall>m \<in> set ms. 0 < m \<and> m \<le> readBufferSize s) \<and>
           (\<forall>m \<in> set (butlast ms). m = readBufferSize s) \<and>
           (inflight s = None \<and> 0 < size' \<longrightarrow> ms \<noteq> []) \<and>
           ((\<exists>b. res = Inr b) \<and> 0 < size' \<longrightarrow> sum_list ms = size')"
    by blast
qed

lemma read_loop_step:
  fixes s :: "'a samba_scheme"
  assumes "0 < size'" "inflight s = None" "incoming s = bs # rest"
    "chunk = (if readBufferSize s > 0 \<and> size' > readBufferSize s
              then readBufferSize s else size')"
    "readBuffer_loop (Some chunk) [] bs = r" "r \<noteq> []"
  shows "read_loop addr buffer size' start s =
           read_loop (addr + chunk) (fst (read_copy 0 chunk r start buffer)) (size' - chunk)
             (snd (read_copy 0 chunk r start buffer) + chunk)
             (s\<lparr> incoming := rest,
                 wire := wire s @ [Sent (CmdR addr chunk) None, Recv (Some r)] \<rparr>)"
proof -
  have c: "(if readBufferSize s > 0 \<and> size' > readBufferSize s
            then readBufferSize s else size') = chunk"
    using assms(4) by simp
  have "0 < chunk" using assms(1) by (auto simp: c [symmetric])
  with assms(1,2,3,5,6) show ?thesis
    by (subst read_loop.simps) (simp add: c sendCommand_def readBuffer_def Let_def split_beta)
qed

lemma read_loop_done:
  "\<not> 0 < size' \<Longrightarrow> read_loop addr buffer size' start s = (Inr buffer, s)"
  by (subst read_loop.simps) simp

lemma read_cmds_inject: "read_cmds a ms = read_cmds a ns \<Longrightarrow> ms = ns"
proof (induction ms arbitrary: a ns)
  case Nil
  then show ?case by (cases ns) simp_all
next
  case (Cons m ms)
  then show ?case by (cases ns) auto
qed

text \<open>
  A read of 64 bytes and one of 48 bytes without a cap, and a read of 100 bytes with the
  cap of 63 that \<open>_connect\<close> sets: an \<open>R\<close> command for 63 bytes, then one for the other 37.
\<close>

theorem read_usb_quirk_witness:
  "sent_commands (wire (snd (samba_read 0x804000 (replicate 64 0) 64
      (SamBA_new [[0x11], replicate 63 0x22])))) = [Cmdo 0x804000, CmdR 0x804001 63] \<and>
   sent_commands (wire (snd (samba_read 0x804000 (replicate 48 0) 48
      (SamBA_new [replicate 48 0x22])))) = [CmdR 0x804000 48] \<and>
   (\<exists>ms. ms = [63, 37] \<and>
      sent_commands (wire (snd (samba_read 0x804000 (replicate 100 0) 100
         ((SamBA_new [replicate 63 0x22, replicate 37 0x22])\<lparr> readBufferSize := 63 \<rparr>)))) =
        read_cmds 0x804000 ms \<and>
      read_cmds 0x804000 ms = [CmdR 0x804000 63, CmdR 0x80403f 37] \<and>
      (\<forall>m \<in> set ms. 0 < m \<and> m \<le> 63) \<and> (\<forall>m \<in> set (butlast ms). m = 63) \<and>
      sum_list ms = 100)"
proof (intro conjI)
  let ?S = "SamBA_new [[0x11], replicate 63 0x22]"
  let ?X = "samba_read 0x804000 (replicate 64 0) 64 ?S"
  have p: "\<exists>k. (64::nat) = 2 ^ k" by (rule exI [of _ 6]) simp
  have "?X = (fst ?X, snd ?X)" by simp
  from read_usb_quirk [OF this, of 64 "0x11" "[]" "[replicate 63 0x22]", THEN conjunct1] p
  show "sent_commands (wire (snd ?X)) = [Cmdo 0x804000, CmdR 0x804001 63]"
    by (simp add: SamBA_new_def)
next
  let ?S = "SamBA_new [replicate 48 0x22]"
  let ?X = "samba_read 0x804000 (replicate 48 0) 48 ?S"
  have p: "\<not> (\<exists>k. (48::nat) = 2 ^ k)"
  proof
    assume "\<exists>k. (48::nat) = 2 ^ k"
    then obtain k where k: "(48::nat) = 2 ^ k" ..
    have "k < 6"
    proof (rule ccontr)
      assume "\<not> k < 6"
      then have "(2::nat) ^ 6 \<le> 2 ^ k" by (intro power_increasing) simp_all
      with k show False by simp
    qed
    then consider "k = 0" | "k = 1" | "k = 2" | "k = 3" | "k = 4" | "k = 5" by linarith
    then show False using k by cases simp_all
  qed
  have "?X = (fst ?X, snd ?X)" by simp
  from read_usb_quirk [OF this, of 48, THEN conjunct2, THEN conjunct1] p
  show "sent_commands (wire (snd ?X)) = [CmdR 0x804000 48]"
    by (simp add: SamBA_new_def)
next
  let ?S = "(SamBA_new [replicate 63 0x22, replicate 37 0x22])\<lparr> readBufferSize := 63 \<rparr>"
  let ?X = "samba_read 0x804000 (replicate 100 0) 100 ?S"
  have r63: "readBuffer_loop (Some 63) [] (replicate 63 0x22) = replicate 63 0x22"
    using readBuffer_loop_all [of "replicate 63 0x22" "[]" 63] by simp
  have r37: "readBuffer_loop (Some 37) [] (replicate 37 0x22) = replicate 37 0x22"
    using readBuffer_loop_all [of "replicate 37 0x22" "[]" 37] by simp
  define b1 where "b1 = fst (read_copy 0 63 (replicate 63 0x22) 0 (replicate 100 0))"
  define t1 where "t1 = snd (read_copy 0 63 (replicate 63 0x22) 0 (replicate 100 0)) + 63"
  define s1 where "s1 = ?S\<lparr> incoming := [replicate 37 0x22],
    wire := wire ?S @ [Sent (CmdR 0x804000 63) None, Recv (Some (replicate 63 0x22))] \<rparr>"
  define b2 where "b2 = fst (read_copy 0 37 (replicate 37 0x22) t1 b1)"
  define t2 where "t2 = snd (read_copy 0 37 (replicate 37 0x22) t1 b1) + 37"
  define s2 where "s2 = s1\<lparr> incoming := [],
    wire := wire s1 @ [Sent (CmdR 0x80403f 37) None, Recv (Some (replicate 37 0x22))] \<rparr>"
  have "read_loop 0x804000 (replicate 100 0) 100 0 ?S = read_loop 0x80403f b1 37 t1 s1"
    using read_loop_step [of 100 ?S "replicate 63 0x22" "[replicate 37 0x22]" 63
        "replicate 63 0x22" "0x804000" "replicate 100 0" 0] r63
    by (simp add: SamBA_new_def b1_def t1_def s1_def)
  also have "\<dots> = read_loop 0x804064 b2 0 t2 s2"
    using read_loop_step [of 37 s1 "replicate 37 0x22" "[]" 37
        "replicate 37 0x22" "0x80403f" b1 t1] r37
    by (simp add: SamBA_new_def b2_def t2_def s2_def s1_def)
  also have "\<dots> = (Inr b2, s2)" by (rule read_loop_done) simp
  finally have "?X = (Inr b2, s2)" by (simp add: samba_read_def SamBA_new_def)
  then have ev: "sent_commands (wire (snd ?X)) = read_cmds 0x804000 [63, 37]"
    by (simp add: s2_def s1_def SamBA_new_def sent_commands_append)
  have pos: "0 < readBufferSize ?S" by (simp add: SamBA_new_def)
  have w0: "sent_commands (wire ?S) = []" by (simp add: SamBA_new_def)
  have rb: "readBufferSize ?S = 63" by simp
  have "?X = (fst ?X, snd ?X)" by simp
  from read_usb_quirk [OF this, THEN conjunct2, THEN conjunct2, THEN mp, OF pos]
  obtain ms where ms0:
    "sent_commands (wire (snd ?X)) = sent_commands (wire ?S) @ read_cmds 0x804000 ms"
    "\<forall>m \<in> set ms. 0 < m \<and> m \<le> readBufferSize ?S"
    "\<forall>m \<in> set (butlast ms). m = readBufferSize ?S"
    by blast
  note ms = ms0 [unfolded w0 rb append_Nil]
  from ms(1) [symmetric] ev have "read_cmds 0x804000 ms = read_cmds 0x804000 [63, 37]"
    by (rule trans)
  then have m: "ms = [63, 37]" by (rule read_cmds_inject)
  have "ms = [63, 37] \<and>
      sent_commands (wire (snd ?X)) = read_cmds 0x804000 ms \<and>
      read_cmds 0x804000 ms = [CmdR 0x804000 63, CmdR 0x80403f 37] \<and>
      (\<forall>m \<in> set ms. 0 < m \<and> m \<le> 63) \<and> (\<forall>m \<in> set (butlast ms). m = 63) \<and>
      sum_list ms = 100"
  proof (intro conjI)
    show "ms = [63, 37]" by (rule m)
    show "sent_commands (wire (snd ?X)) = read_cmds 0x804000 ms" by (rule ms(1))
    show "read_cmds 0x804000 ms = [CmdR 0x804000 63, CmdR 0x80403f 37]" unfolding m by simp
    show "\<forall>m \<in> set ms. 0 < m \<and> m \<le> 63" by (rule ms(2))
    show "\<forall>m \<in> set (butlast ms). m = 63" by (rule ms(3))
    show "sum_list ms = 100" unfolding m by simp
  qed
  then
  show "\<exists>ms. ms = [63, 37] \<and>
      sent_commands (wire (snd ?X)) = read_cmds 0x804000 ms \<and>
      read_cmds 0x804000 ms = [CmdR 0x804000 63, CmdR 0x80403f 37] \<and>
      (\<forall>m \<in> set ms. 0 < m \<and> m \<le> 63) \<and> (\<forall>m \<in> set (butlast ms). m = 63) \<and>
      sum_list ms = 100"
    by (rule exI)
qed

subsection \<open>The ready discipline of \<open>command\<close>\<close>

lemma readWord_log:
  assumes "readWord a s = (Inr v, s')"
  obtains r where "v = word_le r" "wire s' = wire s @ [Sent (Cmdw a) None, Recv (Some r)]"
    "inflight s = None" "inflight s' = None"
  using assms
  by (auto simp: readWord_def sendCommand_def readBuffer_def Let_def
           split: prod.splits option.splits if_splits list.splits sum.splits)

lemma readWord_fails:
  "inflight s = None \<Longrightarrow> readWord a s = (Inl e, s') \<Longrightarrow> e = SamBAError \<and> inflight s' = None"
  by (auto simp: readWord_def sendCommand_def readBuffer_def Let_def
           split: prod.splits option.splits if_splits list.splits sum.splits)

lemma readWord_locked:
  "inflight s = Some c \<Longrightarrow> readWord a s = (Inl TypeError, s\<lparr> inflight := Some (Cmdw a) \<rparr>)"
  by (simp add: readWord_def sendCommand_def)

lemma readByte_log:
  assumes "readByte a s = (Inr v, s')"
  obtains r where "v = u8_get r 0" "wire s' = wire s @ [Sent (Cmdo a) None, Recv (Some r)]"
    "inflight s = None" "inflight s' = None"
  using assms
  by (auto simp: readByte_def sendCommand_def readBuffer_def Let_def
           split: prod.splits option.splits if_splits list.splits sum.splits)

lemma readByte_fails:
  "inflight s = None \<Longrightarrow> readByte a s = (Inl e, s') \<Longrightarrow> e = SamBAError \<and> inflight s' = None"
  by (auto simp: readByte_def sendCommand_def readBuffer_def Let_def
           split: prod.splits option.splits if_splits list.splits sum.splits)

lemma readByte_locked:
  "inflight s = Some c \<Longrightarrow> readByte a s = (Inl TypeError, s\<lparr> inflight := Some (Cmdo a) \<rparr>)"
  by (simp add: readByte_def sendCommand_def)

lemma writeWord_log:
  "inflight s = None \<Longrightarrow>
   writeWord a v s = (Inr (), s\<lparr> wire := wire s @ [Sent (CmdW a v) None] \<rparr>)"
  by (simp add: writeWord_def sendCommand_def Let_def)

lemma writeWord_locked:
  "inflight s = Some c \<Longrightarrow>
   writeWord a v s = (Inl TypeError, s\<lparr> inflight := Some (CmdW a v) \<rparr>)"
  by (simp add: writeWord_def sendCommand_def)

lemma next_do_writeWord:
  "inflight s = None \<Longrightarrow>
   next_do (writeWord a v) k s = k (s\<lparr> wire := wire s @ [Sent (CmdW a v) None] \<rparr>)"
  by (simp add: next_do_def andThen_def writeWord_log)

lemma next_do_d2x_writeReg:
  "inflight s = None \<Longrightarrow>
   next_do (d2x_writeReg reg v) k s =
     k (s\<lparr> wire := wire s @ [Sent (CmdW (NVM_REG_BASE + reg) v) None] \<rparr>)"
  by (simp add: d2x_writeReg_def next_do_writeWord)

lemma d2x_ready_wait_step:
  "d2x_ready_wait ([Sent (Cmdw (NVM_REG_BASE + D2x_NVM_REG_INTFLAG)) None, Recv (Some r)] @ es) =
     (if js_and (word_le r) 0x1 = 0 then d2x_ready_wait es else es = [])"
  by simp

lemma d2x_waitReady_log:
  "d2x_waitReady s = (Inr u, s') \<Longrightarrow>
   \<exists>es. wire s' = wire s @ es \<and> d2x_ready_wait es \<and> inflight s' = None"
proof (induction s arbitrary: u s' rule: d2x_waitReady.induct)
  case (1 s)
  obtain r1 s1 where rd: "d2x_readReg D2x_NVM_REG_INTFLAG s = (r1, s1)"
    by (cases "d2x_readReg D2x_NVM_REG_INTFLAG s")
  from "1.prems" rd obtain v where r1: "r1 = Inr v"
    by (subst (asm) d2x_waitReady.simps) (cases r1; simp)
  from rd r1 obtain r where v: "v = word_le r"
    and w: "wire s1 = wire s @ [Sent (Cmdw (NVM_REG_BASE + D2x_NVM_REG_INTFLAG)) None, Recv (Some r)]"
    and f1: "inflight s1 = None"
    unfolding d2x_readReg_def by (auto elim: readWord_log)
  show ?case
  proof (cases "js_and v 0x1 = 0")
    case True
    with "1.prems" rd r1 have "d2x_waitReady s1 = (Inr u, s')"
      by (subst (asm) d2x_waitReady.simps) simp
    from "1.IH" [OF rd [symmetric] r1 True this]
    obtain es where es: "wire s' = wire s1 @ es" "d2x_ready_wait es" "inflight s' = None"
      by blast
    have "wire s' = wire s @ ([Sent (Cmdw (NVM_REG_BASE + D2x_NVM_REG_INTFLAG)) None, Recv (Some r)] @ es)"
      using es(1) w by simp
    moreover have "d2x_ready_wait ([Sent (Cmdw (NVM_REG_BASE + D2x_NVM_REG_INTFLAG)) None, Recv (Some r)] @ es)"
      using True v es(2) by (simp only: d2x_ready_wait_step) simp
    ultimately show ?thesis using es(3) by blast
  next
    case False
    with "1.prems" rd r1 have "s' = s1" by (subst (asm) d2x_waitReady.simps) simp
    moreover have "d2x_ready_wait ([Sent (Cmdw (NVM_REG_BASE + D2x_NVM_REG_INTFLAG)) None, Recv (Some r)] @ [])"
      using False v by (simp only: d2x_ready_wait_step) simp
    ultimately show ?thesis using w f1 by auto
  qed
qed

lemma d2x_waitReady_fails:
  "d2x_waitReady s = (Inl e, s') \<Longrightarrow> inflight s = None \<Longrightarrow>
   e = SamBAError \<and> inflight s' = None"
proof (induction s arbitrary: e s' rule: d2x_waitReady.induct)
  case (1 s)
  obtain r1 s1 where rd: "d2x_readReg D2x_NVM_REG_INTFLAG s = (r1, s1)"
    by (cases "d2x_readReg D2x_NVM_REG_INTFLAG s")
  show ?case
  proof (cases r1)
    case (Inl e')
    with "1.prems"(1) rd have "(Inl e, s') = (Inl e' :: error + unit, s1)"
      by (subst (asm) d2x_waitReady.simps) simp
    then have "e = e'" "s' = s1" by simp_all
    with rd Inl "1.prems"(2) show ?thesis
      by (auto simp: d2x_readReg_def dest: readWord_fails)
  next
    case (Inr v)
    with "1.prems"(1) rd have c: "js_and v 0x1 = 0 \<and> d2x_waitReady s1 = (Inl e, s')"
      by (subst (asm) d2x_waitReady.simps) (simp split: if_splits)
    from rd Inr have "inflight s1 = None"
      unfolding d2x_readReg_def by (auto elim: readWord_log)
    from "1.IH" [OF rd [symmetric] Inr conjunct1 [OF c] conjunct2 [OF c] this] show ?thesis .
  qed
qed

lemma d2x_command_log:
  assumes fl0: "inflight s = None"
    and run: "d2x_command cmd s = (res, s')" and ok: "res \<noteq> Inl SamBAError"
  shows "\<exists>pre mid r post.
           wire s' = wire s @ pre
             @ [Sent (CmdW (NVM_REG_BASE + D2x_NVM_REG_CTRLA) (js_or CMDEX_KEY cmd)) None]
             @ mid
             @ [Sent (Cmdw (NVM_REG_BASE + D2x_NVM_REG_INTFLAG)) None, Recv (Some r)]
             @ post \<and>
           d2x_ready_wait pre \<and> d2x_ready_wait mid \<and>
           (if truthy (js_and (word_le r) 0x2)
            then res = Inl FlashCmdError \<and>
                 post = [Sent (CmdW (NVM_REG_BASE + D2x_NVM_REG_INTFLAG) 0x2) None]
            else res = Inr () \<and> post = []) \<and>
           inflight s' = None"
proof -
  let ?rest1 = "next_do (d2x_writeReg D2x_NVM_REG_CTRLA (js_or CMDEX_KEY cmd))
          (next_do d2x_waitReady
             (andThen (d2x_readReg D2x_NVM_REG_INTFLAG)
                (\<lambda>flags. if truthy (js_and flags 0x2)
                   then next_do (d2x_writeReg D2x_NVM_REG_INTFLAG 0x2) (throw FlashCmdError)
                   else ret ())))"
  from run have "next_do d2x_waitReady ?rest1 s = (res, s')" by (simp add: d2x_command_def)
  then obtain s1 where 1: "d2x_waitReady s = (Inr (), s1)" and r1: "?rest1 s1 = (res, s')"
    using ok fl0 by (cases rule: next_do_cases) (auto dest: d2x_waitReady_fails)
  from d2x_waitReady_log [OF 1] obtain pre where pre: "wire s1 = wire s @ pre" "d2x_ready_wait pre"
    and f1: "inflight s1 = None"
    by blast
  define s2 where "s2 = s1\<lparr> wire := wire s1 @
      [Sent (CmdW (NVM_REG_BASE + D2x_NVM_REG_CTRLA) (js_or CMDEX_KEY cmd)) None] \<rparr>"
  let ?rest2 = "next_do d2x_waitReady
             (andThen (d2x_readReg D2x_NVM_REG_INTFLAG)
                (\<lambda>flags. if truthy (js_and flags 0x2)
                   then next_do (d2x_writeReg D2x_NVM_REG_INTFLAG 0x2) (throw FlashCmdError)
                   else ret ()))"
  from r1 have r2: "?rest2 s2 = (res, s')"
    by (simp add: next_do_d2x_writeReg [OF f1] s2_def)
  have f2: "inflight s2 = None" using f1 by (simp add: s2_def)
  let ?rest3 = "andThen (d2x_readReg D2x_NVM_REG_INTFLAG)
                (\<lambda>flags. if truthy (js_and flags 0x2)
                   then next_do (d2x_writeReg D2x_NVM_REG_INTFLAG 0x2) (throw FlashCmdError)
                   else ret ())"
  from r2 obtain s3 where 3: "d2x_waitReady s2 = (Inr (), s3)" and r3: "?rest3 s3 = (res, s')"
    using ok f2 by (cases rule: next_do_cases) (auto dest: d2x_waitReady_fails)
  from d2x_waitReady_log [OF 3] obtain mid where mid: "wire s3 = wire s2 @ mid" "d2x_ready_wait mid"
    and f3: "inflight s3 = None"
    by blast
  from r3 obtain flags s4 where 4: "d2x_readReg D2x_NVM_REG_INTFLAG s3 = (Inr flags, s4)"
    and r4: "(if truthy (js_and flags 0x2)
                   then next_do (d2x_writeReg D2x_NVM_REG_INTFLAG 0x2) (throw FlashCmdError)
                   else ret ()) s4 = (res, s')"
    using ok f3 by (cases rule: andThen_cases) (auto simp: d2x_readReg_def dest: readWord_fails)
  from 4 obtain r where fl: "flags = word_le r"
    and w4: "wire s4 = wire s3 @ [Sent (Cmdw (NVM_REG_BASE + D2x_NVM_REG_INTFLAG)) None, Recv (Some r)]"
    and f4: "inflight s4 = None"
    unfolding d2x_readReg_def by (auto elim: readWord_log)
  have upto: "wire s4 = wire s @ pre
             @ [Sent (CmdW (NVM_REG_BASE + D2x_NVM_REG_CTRLA) (js_or CMDEX_KEY cmd)) None]
             @ mid
             @ [Sent (Cmdw (NVM_REG_BASE + D2x_NVM_REG_INTFLAG)) None, Recv (Some r)]"
    using pre(1) mid(1) w4 by (simp add: s2_def)
  show ?thesis
  proof (cases "truthy (js_and flags 0x2)")
    case True
    with r4 have "res = Inl FlashCmdError"
      "s' = s4\<lparr> wire := wire s4 @ [Sent (CmdW (NVM_REG_BASE + D2x_NVM_REG_INTFLAG) 0x2) None] \<rparr>"
      by (auto simp: next_do_d2x_writeReg [OF f4] throw_def)
    with upto pre(2) mid(2) True fl f4 show ?thesis by auto
  next
    case False
    with r4 have "res = Inr ()" "s' = s4" by (auto simp: ret_def)
    with upto pre(2) mid(2) False fl f4 show ?thesis by auto
  qed
qed

lemma d5x_readRegU16_log:
  assumes "d5x_readRegU16 reg s = (Inr v, s')"
  obtains lo hi where "v = js_or (u8_get lo 0) (js_shl (u8_get hi 0) 8)"
    "wire s' = wire s @ [Sent (Cmdo (NVM_REG_BASE + reg)) None, Recv (Some lo),
                         Sent (Cmdo (NVM_REG_BASE + reg + 1)) None, Recv (Some hi)]"
    "inflight s = None" "inflight s' = None"
proof -
  from assms obtain l s1 where 1: "readByte (NVM_REG_BASE + reg) s = (Inr l, s1)"
    and 2: "andThen (readByte (NVM_REG_BASE + reg + 1)) (\<lambda>hi. ret (js_or l (js_shl hi 8))) s1
              = (Inr v, s')"
    unfolding d5x_readRegU16_def by (cases rule: andThen_cases) auto
  from 2 obtain h where 3: "readByte (NVM_REG_BASE + reg + 1) s1 = (Inr h, s')"
    and v: "v = js_or l (js_shl h 8)"
    by (cases rule: andThen_cases) (auto simp: ret_def)
  from 1 obtain lo where lo: "l = u8_get lo 0"
    "wire s1 = wire s @ [Sent (Cmdo (NVM_REG_BASE + reg)) None, Recv (Some lo)]"
    "inflight s = None"
    by (rule readByte_log)
  from 3 obtain hi where hi: "h = u8_get hi 0"
    "wire s' = wire s1 @ [Sent (Cmdo (NVM_REG_BASE + reg + 1)) None, Recv (Some hi)]"
    "inflight s' = None"
    by (rule readByte_log)
  show ?thesis using that [of lo hi] v lo hi by simp
qed

lemma d5x_readRegU16_fails:
  assumes "inflight s = None" "d5x_readRegU16 reg s = (Inl e, s')"
  shows "e = SamBAError \<and> inflight s' = None"
  using assms(2) unfolding d5x_readRegU16_def
proof (cases rule: andThen_cases)
  case (fails e')
  with assms(1) show ?thesis by (auto dest: readByte_fails)
next
  case (goes l s1)
  from goes(1) have f1: "inflight s1 = None" by (auto elim: readByte_log)
  from goes(2) show ?thesis
  proof (cases rule: andThen_cases)
    case (fails e')
    with f1 show ?thesis by (auto dest: readByte_fails)
  next
    case (goes h s2)
    then show ?thesis by (simp add: ret_def)
  qed
qed

lemma d5x_readRegU16_locked:
  "inflight s = Some c \<Longrightarrow>
   d5x_readRegU16 reg s = (Inl TypeError, s\<lparr> inflight := Some (Cmdo (NVM_REG_BASE + reg)) \<rparr>)"
  by (simp add: d5x_readRegU16_def andThen_def readByte_locked)

text \<open>
  \<open>writeRegU16\<close> returns with nothing written: the first \<open>writeByte\<close> takes the lock, the
  second replaces its packet in the shared buffer and fails unseen.
\<close>

lemma d5x_writeRegU16_log:
  "d5x_writeRegU16 reg v s =
     (Inr (), s\<lparr> inflight := Some (CmdO (NVM_REG_BASE + reg) (js_and (js_shr v 8) 0xff)) \<rparr>)"
  by (simp add: d5x_writeRegU16_def next_do_def andThen_def writeByte_def)

lemma next_do_d5x_writeRegU32:
  "inflight s = None \<Longrightarrow>
   next_do (d5x_writeRegU32 reg v) k s =
     k (s\<lparr> wire := wire s @ [Sent (CmdW (NVM_REG_BASE + reg) v) None] \<rparr>)"
  by (simp add: d5x_writeRegU32_def next_do_writeWord)

lemma d5x_ready_wait_step:
  "d5x_ready_wait ([Sent (Cmdo (NVM_REG_BASE + D5x_NVM_REG_STATUS)) None, Recv (Some lo),
                    Sent (Cmdo (NVM_REG_BASE + D5x_NVM_REG_STATUS + 1)) None, Recv (Some hi)] @ es) =
     (if js_and (js_or (u8_get lo 0) (js_shl (u8_get hi 0) 8)) 0x1 = 0
      then d5x_ready_wait es else es = [])"
  by simp

lemma d5x_waitReady_log:
  "d5x_waitReady s = (Inr u, s') \<Longrightarrow>
   \<exists>es. wire s' = wire s @ es \<and> d5x_ready_wait es \<and> inflight s' = None"
proof (induction s arbitrary: u s' rule: d5x_waitReady.induct)
  case (1 s)
  obtain r1 s1 where rd: "d5x_readRegU16 D5x_NVM_REG_STATUS s = (r1, s1)"
    by (cases "d5x_readRegU16 D5x_NVM_REG_STATUS s")
  from "1.prems" rd obtain v where r1: "r1 = Inr v"
    by (subst (asm) d5x_waitReady.simps) (cases r1; simp)
  from rd r1 obtain lo hi where v: "v = js_or (u8_get lo 0) (js_shl (u8_get hi 0) 8)"
    and w: "wire s1 = wire s @ [Sent (Cmdo (NVM_REG_BASE + D5x_NVM_REG_STATUS)) None, Recv (Some lo),
                    Sent (Cmdo (NVM_REG_BASE + D5x_NVM_REG_STATUS + 1)) None, Recv (Some hi)]"
    and f1: "inflight s1 = None"
    by (auto elim: d5x_readRegU16_log)
  let ?x = "[Sent (Cmdo (NVM_REG_BASE + D5x_NVM_REG_STATUS)) None, Recv (Some lo),
                    Sent (Cmdo (NVM_REG_BASE + D5x_NVM_REG_STATUS + 1)) None, Recv (Some hi)]"
  show ?case
  proof (cases "js_and v 0x1 = 0")
    case True
    with "1.prems" rd r1 have "d5x_waitReady s1 = (Inr u, s')"
      by (subst (asm) d5x_waitReady.simps) simp
    from "1.IH" [OF rd [symmetric] r1 True this]
    obtain es where es: "wire s' = wire s1 @ es" "d5x_ready_wait es" "inflight s' = None"
      by blast
    have "wire s' = wire s @ (?x @ es)" using es(1) w by simp
    moreover have "d5x_ready_wait (?x @ es)"
      using True v es(2) by (simp only: d5x_ready_wait_step) simp
    ultimately show ?thesis using es(3) by blast
  next
    case False
    with "1.prems" rd r1 have "s' = s1" by (subst (asm) d5x_waitReady.simps) simp
    moreover have "d5x_ready_wait (?x @ [])"
      using False v by (simp only: d5x_ready_wait_step) simp
    ultimately show ?thesis using w f1 by auto
  qed
qed

lemma d5x_waitReady_fails:
  "d5x_waitReady s = (Inl e, s') \<Longrightarrow> inflight s = None \<Longrightarrow>
   e = SamBAError \<and> inflight s' = None"
proof (induction s arbitrary: e s' rule: d5x_waitReady.induct)
  case (1 s)
  obtain r1 s1 where rd: "d5x_readRegU16 D5x_NVM_REG_STATUS s = (r1, s1)"
    by (cases "d5x_readRegU16 D5x_NVM_REG_STATUS s")
  show ?case
  proof (cases r1)
    case (Inl e')
    with "1.prems"(1) rd have "(Inl e, s') = (Inl e' :: error + unit, s1)"
      by (subst (asm) d5x_waitReady.simps) simp
    then have "e = e'" "s' = s1" by simp_all
    with rd Inl "1.prems"(2) show ?thesis by (auto dest: d5x_readRegU16_fails)
  next
    case (Inr v)
    with "1.prems"(1) rd have c: "js_and v 0x1 = 0 \<and> d5x_waitReady s1 = (Inl e, s')"
      by (subst (asm) d5x_waitReady.simps) (simp split: if_splits)
    from rd Inr have "inflight s1 = None" by (auto elim: d5x_readRegU16_log)
    from "1.IH" [OF rd [symmetric] Inr conjunct1 [OF c] conjunct2 [OF c] this] show ?thesis .
  qed
qed

lemma d5x_waitReady_locked:
  "inflight s = Some c \<Longrightarrow>
   d5x_waitReady s =
     (Inl TypeError, s\<lparr> inflight := Some (Cmdo (NVM_REG_BASE + D5x_NVM_REG_STATUS)) \<rparr>)"
  by (subst d5x_waitReady.simps) (simp add: d5x_readRegU16_locked)

lemma d5x_command_log:
  assumes fl0: "inflight s = None"
    and run: "d5x_command cmd s = (res, s')" and ok: "res \<noteq> Inl SamBAError"
  shows "\<exists>pre mid lo hi.
           wire s' = wire s @ pre
             @ [Sent (CmdW (NVM_REG_BASE + D5x_NVM_REG_CTRLB) (js_or CMDEX_KEY cmd)) None]
             @ mid
             @ [Sent (Cmdo (NVM_REG_BASE + D5x_NVM_REG_INTFLAG)) None, Recv (Some lo),
                Sent (Cmdo (NVM_REG_BASE + D5x_NVM_REG_INTFLAG + 1)) None, Recv (Some hi)] \<and>
           d5x_ready_wait pre \<and> d5x_ready_wait mid \<and>
           (if truthy (js_and (js_or (u8_get lo 0) (js_shl (u8_get hi 0) 8)) 0xce)
            then res = Inl FlashCmdError \<and>
                 inflight s' = Some (CmdO (NVM_REG_BASE + D5x_NVM_REG_INTFLAG)
                                       (js_and (js_shr 0xce 8) 0xff))
            else res = Inr () \<and> inflight s' = None)"
proof -
  let ?check = "andThen (d5x_readRegU16 D5x_NVM_REG_INTFLAG)
                (\<lambda>flags. if truthy (js_and flags 0xce)
                   then next_do (d5x_writeRegU16 D5x_NVM_REG_INTFLAG 0xce) (throw FlashCmdError)
                   else ret ())"
  let ?rest1 = "next_do (d5x_writeRegU32 D5x_NVM_REG_CTRLB (js_or CMDEX_KEY cmd))
          (next_do d5x_waitReady ?check)"
  from run have "next_do d5x_waitReady ?rest1 s = (res, s')" by (simp add: d5x_command_def)
  then obtain s1 where 1: "d5x_waitReady s = (Inr (), s1)" and r1: "?rest1 s1 = (res, s')"
    using ok fl0 by (cases rule: next_do_cases) (auto dest: d5x_waitReady_fails)
  from d5x_waitReady_log [OF 1] obtain pre where pre: "wire s1 = wire s @ pre" "d5x_ready_wait pre"
    and f1: "inflight s1 = None"
    by blast
  define s2 where "s2 = s1\<lparr> wire := wire s1 @
      [Sent (CmdW (NVM_REG_BASE + D5x_NVM_REG_CTRLB) (js_or CMDEX_KEY cmd)) None] \<rparr>"
  from r1 have r2: "next_do d5x_waitReady ?check s2 = (res, s')"
    by (simp add: next_do_d5x_writeRegU32 [OF f1] s2_def)
  have f2: "inflight s2 = None" using f1 by (simp add: s2_def)
  from r2 obtain s3 where 3: "d5x_waitReady s2 = (Inr (), s3)" and r3: "?check s3 = (res, s')"
    using ok f2 by (cases rule: next_do_cases) (auto dest: d5x_waitReady_fails)
  from d5x_waitReady_log [OF 3] obtain mid where mid: "wire s3 = wire s2 @ mid" "d5x_ready_wait mid"
    and f3: "inflight s3 = None"
    by blast
  from r3 obtain flags s4 where 4: "d5x_readRegU16 D5x_NVM_REG_INTFLAG s3 = (Inr flags, s4)"
    and r4: "(if truthy (js_and flags 0xce)
                   then next_do (d5x_writeRegU16 D5x_NVM_REG_INTFLAG 0xce) (throw FlashCmdError)
                   else ret ()) s4 = (res, s')"
    using ok f3 by (cases rule: andThen_cases) (auto dest: d5x_readRegU16_fails)
  from 4 obtain lo hi where fl: "flags = js_or (u8_get lo 0) (js_shl (u8_get hi 0) 8)"
    and w4: "wire s4 = wire s3 @
               [Sent (Cmdo (NVM_REG_BASE + D5x_NVM_REG_INTFLAG)) None, Recv (Some lo),
                Sent (Cmdo (NVM_REG_BASE + D5x_NVM_REG_INTFLAG + 1)) None, Recv (Some hi)]"
    and f4: "inflight s4 = None"
    by (auto elim: d5x_readRegU16_log)
  have upto: "wire s4 = wire s @ pre
             @ [Sent (CmdW (NVM_REG_BASE + D5x_NVM_REG_CTRLB) (js_or CMDEX_KEY cmd)) None]
             @ mid
             @ [Sent (Cmdo (NVM_REG_BASE + D5x_NVM_REG_INTFLAG)) None, Recv (Some lo),
                Sent (Cmdo (NVM_REG_BASE + D5x_NVM_REG_INTFLAG + 1)) None, Recv (Some hi)]"
    using pre(1) mid(1) w4 by (simp add: s2_def)
  show ?thesis
  proof (cases "truthy (js_and flags 0xce)")
    case True
    with r4 have "res = Inl FlashCmdError"
      "s' = s4\<lparr> inflight := Some (CmdO (NVM_REG_BASE + D5x_NVM_REG_INTFLAG)
                                  (js_and (js_shr 0xce 8) 0xff)) \<rparr>"
      by (auto simp: next_do_Inr [OF d5x_writeRegU16_log] throw_def)
    with upto pre(2) mid(2) True fl show ?thesis by auto
  next
    case False
    with r4 have "res = Inr ()" "s' = s4" by (auto simp: ret_def)
    with upto pre(2) mid(2) False fl f4 show ?thesis by auto
  qed
qed

lemmas js_eval = trunc_def ToInt32_def ToUint8_def fromInt32_def js_and_def js_or_def js_not_def
  js_shl_def js_shr_def js_mod_def truthy_def is_index_def u8_get_def u8_set_def word_le_def

lemmas io_eval = sendCommand_def readBuffer_def Let_def readByte_def writeByte_def readWord_def
  writeWord_def samba_write_def go_def andThen_def next_do_def ret_def throw_def modify_def

text \<open>
  C3. In both drivers, a call of \<open>command\<close> made with no write in flight and in which no
  read times out leaves this in the log, in this order: a ready-wait (one or more reads
  of the ready register, the last one with bit 0 set), the write of \<open>0xA500 | cmd\<close> to
  the control register, a second ready-wait, and only then the read of \<open>INTFLAG\<close> for the
  error check. The call raises \<open>FlashCmdError\<close> exactly when that read shows an error
  flag. The D2x driver then writes the flag back to \<open>INTFLAG\<close> before it raises. The D5x
  driver starts its two byte writes without awaiting them: nothing more is sent within
  the call, and the call ends with a write in flight.
\<close>

theorem command_ready_discipline:
  fixes s :: "'a samba_scheme" and t :: "'b samba_scheme"
  shows
    "(inflight s = None \<and> d2x_command cmd s = (res, s') \<and> res \<noteq> Inl SamBAError \<longrightarrow>
        (\<exists>pre mid r post.
           wire s' = wire s @ pre
             @ [Sent (CmdW (NVM_REG_BASE + D2x_NVM_REG_CTRLA) (js_or CMDEX_KEY cmd)) None]
             @ mid
             @ [Sent (Cmdw (NVM_REG_BASE + D2x_NVM_REG_INTFLAG)) None, Recv (Some r)]
             @ post \<and>
           d2x_ready_wait pre \<and> d2x_ready_wait mid \<and>
           (if truthy (js_and (word_le r) 0x2)
            then res = Inl FlashCmdError \<and>
                 post = [Sent (CmdW (NVM_REG_BASE + D2x_NVM_REG_INTFLAG) 0x2) None]
            else res = Inr () \<and> post = []))) \<and>
     (inflight t = None \<and> d5x_command cmd' t = (res', t') \<and> res' \<noteq> Inl SamBAError \<longrightarrow>
        (\<exists>pre mid lo hi.
           wire t' = wire t @ pre
             @ [Sent (CmdW (NVM_REG_BASE + D5x_NVM_REG_CTRLB) (js_or CMDEX_KEY cmd')) None]
             @ mid
             @ [Sent (Cmdo (NVM_REG_BASE + D5x_NVM_REG_INTFLAG)) None, Recv (Some lo),
                Sent (Cmdo (NVM_REG_BASE + D5x_NVM_REG_INTFLAG + 1)) None, Recv (Some hi)] \<and>
           d5x_ready_wait pre \<and> d5x_ready_wait mid \<and>
           (if truthy (js_and (js_or (u8_get lo 0) (js_shl (u8_get hi 0) 8)) 0xce)
            then res' = Inl FlashCmdError \<and>
                 inflight t' = Some (CmdO (NVM_REG_BASE + D5x_NVM_REG_INTFLAG)
                                       (js_and (js_shr 0xce 8) 0xff))
            else res' = Inr () \<and> inflight t' = None)))"
proof (intro conjI impI)
  assume "inflight s = None \<and> d2x_command cmd s = (res, s') \<and> res \<noteq> Inl SamBAError"
  then have h: "inflight s = None" "d2x_command cmd s = (res, s')" "res \<noteq> Inl SamBAError"
    by simp_all
  from d2x_command_log [OF h] obtain pre mid r post where
    "wire s' = wire s @ pre
             @ [Sent (CmdW (NVM_REG_BASE + D2x_NVM_REG_CTRLA) (js_or CMDEX_KEY cmd)) None]
             @ mid
             @ [Sent (Cmdw (NVM_REG_BASE + D2x_NVM_REG_INTFLAG)) None, Recv (Some r)]
             @ post \<and>
           d2x_ready_wait pre \<and> d2x_ready_wait mid \<and>
           (if truthy (js_and (word_le r) 0x2)
            then res = Inl FlashCmdError \<and>
                 post = [Sent (CmdW (NVM_REG_BASE + D2x_NVM_REG_INTFLAG) 0x2) None]
            else res = Inr () \<and> post = [])"
    by blast
  then show "\<exists>pre mid r post.
           wire s' = wire s @ pre
             @ [Sent (CmdW (NVM_REG_BASE + D2x_NVM_REG_CTRLA) (js_or CMDEX_KEY cmd)) None]
             @ mid
             @ [Sent (Cmdw (NVM_REG_BASE + D2x_NVM_REG_INTFLAG)) None, Recv (Some r)]
             @ post \<and>
           d2x_ready_wait pre \<and> d2x_ready_wait mid \<and>
           (if truthy (js_and (word_le r) 0x2)
            then res = Inl FlashCmdError \<and>
                 post = [Sent (CmdW (NVM_REG_BASE + D2x_NVM_REG_INTFLAG) 0x2) None]
            else res = Inr () \<and> post = [])"
    by (intro exI)
next
  assume "inflight t = None \<and> d5x_command cmd' t = (res', t') \<and> res' \<noteq> Inl SamBAError"
  then have h: "inflight t = None" "d5x_command cmd' t = (res', t')" "res' \<noteq> Inl SamBAError"
    by simp_all
  show "\<exists>pre mid lo hi.
           wire t' = wire t @ pre
             @ [Sent (CmdW (NVM_REG_BASE + D5x_NVM_REG_CTRLB) (js_or CMDEX_KEY cmd')) None]
             @ mid
             @ [Sent (Cmdo (NVM_REG_BASE + D5x_NVM_REG_INTFLAG)) None, Recv (Some lo),
                Sent (Cmdo (NVM_REG_BASE + D5x_NVM_REG_INTFLAG + 1)) None, Recv (Some hi)] \<and>
           d5x_ready_wait pre \<and> d5x_ready_wait mid \<and>
           (if truthy (js_and (js_or (u8_get lo 0) (js_shl (u8_get hi 0) 8)) 0xce)
            then res' = Inl FlashCmdError \<and>
                 inflight t' = Some (CmdO (NVM_REG_BASE + D5x_NVM_REG_INTFLAG)
                                       (js_and (js_shr 0xce 8) 0xff))
            else res' = Inr () \<and> inflight t' = None)"
    by (rule d5x_command_log [OF h])
qed

text \<open>
  A D2x command and a D5x command that find the controller ready and no error flag, and
  a D5x command that finds the error flag \<open>PROGE\<close>: it raises, has sent nothing after the
  read of \<open>INTFLAG\<close>, and leaves the write of the high byte \<open>00\<close> in flight.
\<close>

theorem command_ready_discipline_witness:
  "(\<exists>pre mid r post.
      wire (snd (d2x_command D2x_NVM_CMD_WP (SamBA_new [[0], [1], [1], [0]]))) =
        pre @ [Sent (CmdW (NVM_REG_BASE + D2x_NVM_REG_CTRLA) (js_or CMDEX_KEY D2x_NVM_CMD_WP)) None]
          @ mid @ [Sent (Cmdw (NVM_REG_BASE + D2x_NVM_REG_INTFLAG)) None, Recv (Some r)] @ post \<and>
      d2x_ready_wait pre \<and> d2x_ready_wait mid) \<and>
   (\<exists>pre mid lo hi.
      wire (snd (d5x_command D5x_NVM_CMD_WP (SamBA_new [[1], [0], [1], [0], [0], [0]]))) =
        pre @ [Sent (CmdW (NVM_REG_BASE + D5x_NVM_REG_CTRLB) (js_or CMDEX_KEY D5x_NVM_CMD_WP)) None]
          @ mid @ [Sent (Cmdo (NVM_REG_BASE + D5x_NVM_REG_INTFLAG)) None, Recv (Some lo),
                   Sent (Cmdo (NVM_REG_BASE + D5x_NVM_REG_INTFLAG + 1)) None, Recv (Some hi)] \<and>
      d5x_ready_wait pre \<and> d5x_ready_wait mid) \<and>
   (\<exists>pre mid lo hi.
      wire (snd (d5x_command D5x_NVM_CMD_WP (SamBA_new [[1], [0], [1], [0], [4], [0]]))) =
        pre @ [Sent (CmdW (NVM_REG_BASE + D5x_NVM_REG_CTRLB) (js_or CMDEX_KEY D5x_NVM_CMD_WP)) None]
          @ mid @ [Sent (Cmdo (NVM_REG_BASE + D5x_NVM_REG_INTFLAG)) None, Recv (Some lo),
                   Sent (Cmdo (NVM_REG_BASE + D5x_NVM_REG_INTFLAG + 1)) None, Recv (Some hi)] \<and>
      d5x_ready_wait pre \<and> d5x_ready_wait mid \<and>
      fst (d5x_command D5x_NVM_CMD_WP (SamBA_new [[1], [0], [1], [0], [4], [0]])) =
        Inl FlashCmdError \<and>
      inflight (snd (d5x_command D5x_NVM_CMD_WP (SamBA_new [[1], [0], [1], [0], [4], [0]]))) =
        Some (CmdO 0x41004010 0))"
proof -
  let ?S = "SamBA_new [[0], [1], [1], [0]]"
  let ?X = "d2x_command D2x_NVM_CMD_WP ?S"
  let ?T = "SamBA_new [[1], [0], [1], [0], [0], [0]]"
  let ?Y = "d5x_command D5x_NVM_CMD_WP ?T"
  let ?U = "SamBA_new [[1], [0], [1], [0], [4], [0]]"
  let ?Z = "d5x_command D5x_NVM_CMD_WP ?U"
  have ev1: "fst ?X = Inr ()"
    by (simp add: d2x_command_def d2x_waitReady.simps d2x_readReg_def d2x_writeReg_def io_eval
        js_eval SamBA_new_def NVM_REG_BASE_def D2x_NVM_REG_INTFLAG_def D2x_NVM_REG_CTRLA_def
        CMDEX_KEY_def D2x_NVM_CMD_WP_def)
  have ev2: "fst ?Y = Inr ()"
    by (simp add: d5x_command_def d5x_waitReady.simps d5x_readRegU16_def d5x_writeRegU32_def
        d5x_writeRegU16_def io_eval js_eval
        SamBA_new_def NVM_REG_BASE_def D5x_NVM_REG_INTFLAG_def D5x_NVM_REG_CTRLB_def CMDEX_KEY_def
        D5x_NVM_REG_STATUS_def D5x_NVM_CMD_WP_def)
  have ev3: "fst ?Z = Inl FlashCmdError \<and> inflight (snd ?Z) = Some (CmdO 0x41004010 0)"
    by (simp add: d5x_command_def d5x_waitReady.simps d5x_readRegU16_def d5x_writeRegU32_def
        d5x_writeRegU16_def io_eval js_eval
        SamBA_new_def NVM_REG_BASE_def D5x_NVM_REG_INTFLAG_def D5x_NVM_REG_CTRLB_def CMDEX_KEY_def
        D5x_NVM_REG_STATUS_def D5x_NVM_CMD_WP_def)
  have w: "wire ?S = []" "wire ?T = []" "wire ?U = []" by (simp_all add: SamBA_new_def)
  have f: "inflight ?S = None" "inflight ?T = None" "inflight ?U = None"
    by (simp_all add: SamBA_new_def)
  have pr1: "?X = (fst ?X, snd ?X)" by simp
  have ne1: "fst ?X \<noteq> Inl SamBAError" using ev1 by simp
  note h1 = conjI [OF f(1) conjI [OF pr1 ne1]]
  have pr2: "?Y = (fst ?Y, snd ?Y)" by simp
  have ne2: "fst ?Y \<noteq> Inl SamBAError" using ev2 by simp
  note h2 = conjI [OF f(2) conjI [OF pr2 ne2]]
  have pr3: "?Z = (fst ?Z, snd ?Z)" by simp
  have ne3: "fst ?Z \<noteq> Inl SamBAError" using ev3 by simp
  note h3 = conjI [OF f(3) conjI [OF pr3 ne3]]
  note t = command_ready_discipline [where cmd = D2x_NVM_CMD_WP and s = ?S and res = "fst ?X"
      and s' = "snd ?X" and cmd' = D5x_NVM_CMD_WP and t = ?T and res' = "fst ?Y" and t' = "snd ?Y"]
  note u = command_ready_discipline [where cmd = D2x_NVM_CMD_WP and s = ?S and res = "fst ?X"
      and s' = "snd ?X" and cmd' = D5x_NVM_CMD_WP and t = ?U and res' = "fst ?Z" and t' = "snd ?Z"]
  from mp [OF conjunct1 [OF t] h1] obtain pre mid r post where
    a: "wire (snd ?X) = wire ?S @ pre
             @ [Sent (CmdW (NVM_REG_BASE + D2x_NVM_REG_CTRLA) (js_or CMDEX_KEY D2x_NVM_CMD_WP)) None]
             @ mid
             @ [Sent (Cmdw (NVM_REG_BASE + D2x_NVM_REG_INTFLAG)) None, Recv (Some r)]
             @ post" "d2x_ready_wait pre" "d2x_ready_wait mid"
    by blast
  have p1: "\<exists>pre mid r post.
      wire (snd ?X) =
        pre @ [Sent (CmdW (NVM_REG_BASE + D2x_NVM_REG_CTRLA) (js_or CMDEX_KEY D2x_NVM_CMD_WP)) None]
          @ mid @ [Sent (Cmdw (NVM_REG_BASE + D2x_NVM_REG_INTFLAG)) None, Recv (Some r)] @ post \<and>
      d2x_ready_wait pre \<and> d2x_ready_wait mid"
    using a unfolding w by (intro exI [of _ pre] exI [of _ mid] exI [of _ r] exI [of _ post]) simp
  from mp [OF conjunct2 [OF t] h2] obtain pre' mid' lo hi where
    b: "wire (snd ?Y) = wire ?T @ pre'
          @ [Sent (CmdW (NVM_REG_BASE + D5x_NVM_REG_CTRLB) (js_or CMDEX_KEY D5x_NVM_CMD_WP)) None]
          @ mid' @ [Sent (Cmdo (NVM_REG_BASE + D5x_NVM_REG_INTFLAG)) None, Recv (Some lo),
                   Sent (Cmdo (NVM_REG_BASE + D5x_NVM_REG_INTFLAG + 1)) None, Recv (Some hi)]"
       "d5x_ready_wait pre'" "d5x_ready_wait mid'"
    by blast
  have p2: "\<exists>pre mid lo hi.
      wire (snd ?Y) =
        pre @ [Sent (CmdW (NVM_REG_BASE + D5x_NVM_REG_CTRLB) (js_or CMDEX_KEY D5x_NVM_CMD_WP)) None]
          @ mid @ [Sent (Cmdo (NVM_REG_BASE + D5x_NVM_REG_INTFLAG)) None, Recv (Some lo),
                   Sent (Cmdo (NVM_REG_BASE + D5x_NVM_REG_INTFLAG + 1)) None, Recv (Some hi)] \<and>
      d5x_ready_wait pre \<and> d5x_ready_wait mid"
    using b unfolding w
    by (intro exI [of _ pre'] exI [of _ mid'] exI [of _ lo] exI [of _ hi]) simp
  from mp [OF conjunct2 [OF u] h3] obtain pre'' mid'' lo' hi' where
    c: "wire (snd ?Z) = wire ?U @ pre''
          @ [Sent (CmdW (NVM_REG_BASE + D5x_NVM_REG_CTRLB) (js_or CMDEX_KEY D5x_NVM_CMD_WP)) None]
          @ mid'' @ [Sent (Cmdo (NVM_REG_BASE + D5x_NVM_REG_INTFLAG)) None, Recv (Some lo'),
                   Sent (Cmdo (NVM_REG_BASE + D5x_NVM_REG_INTFLAG + 1)) None, Recv (Some hi')]"
       "d5x_ready_wait pre''" "d5x_ready_wait mid''"
    by blast
  have p3: "\<exists>pre mid lo hi.
      wire (snd ?Z) =
        pre @ [Sent (CmdW (NVM_REG_BASE + D5x_NVM_REG_CTRLB) (js_or CMDEX_KEY D5x_NVM_CMD_WP)) None]
          @ mid @ [Sent (Cmdo (NVM_REG_BASE + D5x_NVM_REG_INTFLAG)) None, Recv (Some lo),
                   Sent (Cmdo (NVM_REG_BASE + D5x_NVM_REG_INTFLAG + 1)) None, Recv (Some hi)] \<and>
      d5x_ready_wait pre \<and> d5x_ready_wait mid \<and>
      fst ?Z = Inl FlashCmdError \<and> inflight (snd ?Z) = Some (CmdO 0x41004010 0)"
    using c ev3 unfolding w
    by (intro exI [of _ pre''] exI [of _ mid''] exI [of _ lo'] exI [of _ hi']) simp
  from p1 p2 p3 show ?thesis by (intro conjI)
qed

lemmas d5x_reg_eval = NVM_REG_BASE_def CMDEX_KEY_def D5x_NVM_REG_CTRLA_def D5x_NVM_REG_CTRLB_def
  D5x_NVM_REG_INTFLAG_def D5x_NVM_REG_STATUS_def D5x_NVM_REG_ADDR_def D5x_NVM_CMD_EP_def
  D5x_NVM_CMD_EB_def D5x_NVM_CMD_WP_def D5x_NVM_CMD_WQW_def D5x_NVM_CMD_SSB_def D5x_NVM_CMD_PBC_def

lemmas d5x_cmd_eval = d5x_command_def d5x_waitReady.simps d5x_readRegU16_def d5x_writeRegU32_def
  d5x_writeRegU16_def

text \<open>
  C2, as stated, fails on \<open>command\<close>: with \<open>STATUS\<close> reading ready and \<open>INTFLAG\<close> reading 0,
  \<open>command(WP)\<close> sends byte reads of \<open>STATUS\<close> (\<open>0x41004012\<close>, \<open>0x41004013\<close>) and
  \<open>INTFLAG\<close> (\<open>0x41004010\<close>, \<open>0x41004011\<close>), and reaches \<open>CTRLB\<close> (\<open>0x41004004\<close>) with a
  single word write of \<open>0xA503\<close>, not with two byte writes.
\<close>

theorem d5x_command_dispatch_is_word_write:
  "sent_commands (wire (snd (d5x_command D5x_NVM_CMD_WP
      (SamBA_new [[1], [0], [1], [0], [0], [0]])))) =
     [Cmdo 0x41004012, Cmdo 0x41004013, CmdW 0x41004004 0xa503,
      Cmdo 0x41004012, Cmdo 0x41004013, Cmdo 0x41004010, Cmdo 0x41004011]"
  by (simp add: d5x_cmd_eval d5x_reg_eval io_eval js_eval SamBA_new_def)

subsection \<open>Erase\<close>

lemmas d2x_reg_eval = NVM_REG_BASE_def CMDEX_KEY_def D2x_NVM_CTRL_STATUS_MASK_def
  D2x_NVM_REG_CTRLA_def D2x_NVM_REG_CTRLB_def D2x_NVM_REG_INTFLAG_def D2x_NVM_REG_STATUS_def
  D2x_NVM_REG_ADDR_def D2x_NVM_CMD_ER_def D2x_NVM_CMD_WP_def D2x_NVM_CMD_EAR_def
  D2x_NVM_CMD_WAP_def D2x_NVM_CMD_SSB_def D2x_NVM_CMD_PBC_def D2x_ERASE_ROW_PAGES_def

lemmas d2x_cmd_eval = d2x_command_def d2x_waitReady.simps d2x_readReg_def d2x_writeReg_def

lemmas flash_new_eval = D2xNvmFlash_new_def D5xNvmFlash_new_def Flash_new_def SamBA_new_def
  FlashOption_new_def wordcopy_code_def applet_dst_addr_def applet_reset_off_def
  applet_src_addr_def applet_stack_off_def applet_start_off_def applet_words_def

lemma replicate_eval: "replicate (numeral k) x = x # replicate (pred_numeral k) x"
  by (simp add: numeral_eq_Suc)

lemma d2x_erase_invalid:
  "truthy (js_mod offset (flash_size s * D2x_ERASE_ROW_PAGES)) \<or> offset + size' > totalSize s \<Longrightarrow>
   d2x_erase offset size' s = (Inl FlashEraseError, s)"
  by (auto simp: d2x_erase_def Let_def)

lemma d5x_erase_invalid:
  "truthy (js_mod offset (flash_size s * D5x_ERASE_BLOCK_PAGES)) \<or> offset + size' > totalSize s \<Longrightarrow>
   d5x_erase offset size' s = (Inl FlashEraseError, s)"
  by (auto simp: d5x_erase_def Let_def)

text \<open>
  C4. The claim: \<open>erase(offset, size)\<close> succeeds, with one erase command per granule
  covering the range, exactly for an aligned offset and a range inside the flash, and
  otherwise raises \<open>FlashEraseError\<close> before any command. The rejection is as claimed
  (\<open>d2x_erase_invalid\<close>, \<open>d5x_erase_invalid\<close>). The number of commands is not: the source
  computes \<open>eraseEnd\<close> with a real division, so the loop runs once more than the granules
  of the range. Erasing exactly the first granule (one row of 4 pages of 64 bytes on D2x,
  one block of 16 pages of 512 bytes on D5x) on a target that is always ready sets
  \<open>ADDR\<close> and issues the erase command twice, for the first and for the second granule.
\<close>

theorem erase_of_one_granule_erases_two:
  "(case D2xNvmFlash_new (SamBA_new (replicate 10 [1])) 4096 64 0x20004000 0x20008000 of
      Inl e \<Rightarrow> False
    | Inr f \<Rightarrow>
        fst (d2x_erase 0 256 f) = Inr () \<and>
        sent_commands (wire (snd (d2x_erase 0 256 f))) =
          [Cmdw 0x41004014, Cmdw 0x41004018, CmdW 0x41004018 0xffeb, CmdW 0x4100401c 0,
           Cmdw 0x41004014, CmdW 0x41004000 0xa502, Cmdw 0x41004014, Cmdw 0x41004014,
           Cmdw 0x41004014, Cmdw 0x41004018, CmdW 0x41004018 0xffeb, CmdW 0x4100401c 128,
           Cmdw 0x41004014, CmdW 0x41004000 0xa502, Cmdw 0x41004014, Cmdw 0x41004014]) \<and>
   (case D5xNvmFlash_new (SamBA_new (replicate 12 [1])) 512 512 0x20004000 0x20008000 of
      Inl e \<Rightarrow> False
    | Inr f \<Rightarrow>
        fst (d5x_erase 0 8192 f) = Inr () \<and>
        sent_commands (wire (snd (d5x_erase 0 8192 f))) =
          [CmdW 0x41004014 0, Cmdo 0x41004012, Cmdo 0x41004013, CmdW 0x41004004 0xa501,
           Cmdo 0x41004012, Cmdo 0x41004013, Cmdo 0x41004010, Cmdo 0x41004011,
           CmdW 0x41004014 8192, Cmdo 0x41004012, Cmdo 0x41004013, CmdW 0x41004004 0xa501,
           Cmdo 0x41004012, Cmdo 0x41004013, Cmdo 0x41004010, Cmdo 0x41004011])"
proof (rule conjI)
  show "case D2xNvmFlash_new (SamBA_new (replicate 10 [1])) 4096 64 0x20004000 0x20008000 of
      Inl e \<Rightarrow> False
    | Inr f \<Rightarrow>
        fst (d2x_erase 0 256 f) = Inr () \<and>
        sent_commands (wire (snd (d2x_erase 0 256 f))) =
          [Cmdw 0x41004014, Cmdw 0x41004018, CmdW 0x41004018 0xffeb, CmdW 0x4100401c 0,
           Cmdw 0x41004014, CmdW 0x41004000 0xa502, Cmdw 0x41004014, Cmdw 0x41004014,
           Cmdw 0x41004014, Cmdw 0x41004018, CmdW 0x41004018 0xffeb, CmdW 0x4100401c 128,
           Cmdw 0x41004014, CmdW 0x41004000 0xa502, Cmdw 0x41004014, Cmdw 0x41004014]"
    by (simp add: flash_new_eval d2x_erase_def d2x_erase_loop.simps totalSize_def d2x_cmd_eval
        d2x_reg_eval io_eval js_eval replicate_eval)
next
  show "case D5xNvmFlash_new (SamBA_new (replicate 12 [1])) 512 512 0x20004000 0x20008000 of
      Inl e \<Rightarrow> False
    | Inr f \<Rightarrow>
        fst (d5x_erase 0 8192 f) = Inr () \<and>
        sent_commands (wire (snd (d5x_erase 0 8192 f))) =
          [CmdW 0x41004014 0, Cmdo 0x41004012, Cmdo 0x41004013, CmdW 0x41004004 0xa501,
           Cmdo 0x41004012, Cmdo 0x41004013, Cmdo 0x41004010, Cmdo 0x41004011,
           CmdW 0x41004014 8192, Cmdo 0x41004012, Cmdo 0x41004013, CmdW 0x41004004 0xa501,
           Cmdo 0x41004012, Cmdo 0x41004013, Cmdo 0x41004010, Cmdo 0x41004011]"
    by (simp add: flash_new_eval d5x_erase_def d5x_erase_loop.simps totalSize_def d5x_cmd_eval
        d5x_reg_eval io_eval js_eval D5x_ERASE_BLOCK_PAGES_def replicate_eval)
qed

end
